theory Spec2Isabelle
  imports Main "HOL-Library.Multiset" "HOL-Library.Sublist"
begin

section \<open>Python values and errors\<close>

text \<open>
  The exceptions the modelled code can raise. \<open>KeyError\<close> carries the missing key.
  \<open>UnknownFormat spec\<close> is the \<open>ValueError\<close> that \<open>Card.__format__\<close> raises with
  the message \<open>Unkown format spec\<close>; \<open>ValueError\<close> stands for every other one.
\<close>

datatype error =
    KeyError string
  | IndexError
  | TypeError
  | AttributeError
  | ValueError
  | UnknownFormat string

text \<open>
  A card record is a JSON object loaded from the Scryfall bulk file. The fields this code
  reads hold strings, booleans or lists of strings; these are the value shapes modelled.
  Strings are modelled over ASCII.
\<close>

datatype jval = JStr string | JBool bool | JList "string list"

type_synonym card = "string \<rightharpoonup> jval"

definition res_bind :: "error + 'a \<Rightarrow> ('a \<Rightarrow> error + 'b) \<Rightarrow> error + 'b" where
  "res_bind m f = (case m of Inl e \<Rightarrow> Inl e | Inr v \<Rightarrow> f v)"

text \<open>\<open>card[key]\<close>: raises \<open>KeyError\<close> when the key is missing.\<close>

definition getitem :: "card \<Rightarrow> string \<Rightarrow> error + jval" where
  "getitem c key = (case c key of None \<Rightarrow> Inl (KeyError key) | Some v \<Rightarrow> Inr v)"

text \<open>Python truth value of a JSON value.\<close>

fun truthy :: "jval \<Rightarrow> bool" where
  "truthy (JStr s) = (s \<noteq> [])"
| "truthy (JBool b) = b"
| "truthy (JList xs) = (xs \<noteq> [])"

text \<open>\<open>x in v\<close> for a string \<open>x\<close>: substring test on a string, membership on a list,
  \<open>TypeError\<close> on a boolean.\<close>

fun py_contains :: "string \<Rightarrow> jval \<Rightarrow> error + bool" where
  "py_contains x (JStr s) = Inr (sublist x s)"
| "py_contains x (JBool b) = Inl TypeError"
| "py_contains x (JList xs) = Inr (x \<in> set xs)"

text \<open>\<open>v[-1]\<close>: the last character of a string (as a one-character string), the last
  element of a list; \<open>IndexError\<close> when empty, \<open>TypeError\<close> on a boolean.\<close>

fun last_item :: "jval \<Rightarrow> error + jval" where
  "last_item (JStr s) = (if s = [] then Inl IndexError else Inr (JStr [last s]))"
| "last_item (JBool b) = Inl TypeError"
| "last_item (JList xs) = (if xs = [] then Inl IndexError else Inr (JStr (last xs)))"

text \<open>\<open>str.lower()\<close> on ASCII text: \<open>A\<close>--\<open>Z\<close> become \<open>a\<close>--\<open>z\<close>, any other character
  is unchanged.\<close>

definition lower_char :: "char \<Rightarrow> char" where
  "lower_char c =
     (case map_of (zip ''ABCDEFGHIJKLMNOPQRSTUVWXYZ'' ''abcdefghijklmnopqrstuvwxyz'') c of
        None \<Rightarrow> c
      | Some d \<Rightarrow> d)"

definition lower :: "string \<Rightarrow> string" where
  "lower s = map lower_char s"

text \<open>\<open>v.lower()\<close>: only strings have the method.\<close>

fun py_lower :: "jval \<Rightarrow> error + string" where
  "py_lower (JStr s) = Inr (lower s)"
| "py_lower (JBool b) = Inl AttributeError"
| "py_lower (JList xs) = Inl AttributeError"

section \<open>Card database: \<open>get_cards\<close> and \<open>get_card\<close>\<close>

text \<open>
  The list comprehension
  \<^verbatim>\<open>[card for card in cards if key in card and card[key].lower() == value]\<close>
  of \<open>get_cards\<close>: a card without the key is skipped before its value is read; a value
  that is not a string raises.
\<close>

fun filter_cards :: "string \<Rightarrow> string \<Rightarrow> card list \<Rightarrow> error + card list" where
  "filter_cards key val [] = Inr []"
| "filter_cards key val (c # cs) =
     (case c key of
        None \<Rightarrow> filter_cards key val cs
      | Some v \<Rightarrow>
          res_bind (py_lower v) (\<lambda>s.
          res_bind (filter_cards key val cs) (\<lambda>rest.
          Inr (if s = val then c # rest else rest))))"

text \<open>
  \<open>get_cards(database, **kwargs)\<close>. The loaded database is the list \<open>cards\<close>; the keyword
  arguments are the list of (key, value) pairs in call order, \<open>None\<close> for a value that is
  \<open>None\<close>.
\<close>

fun get_cards :: "card list \<Rightarrow> (string \<times> string option) list \<Rightarrow> error + card list" where
  "get_cards cards [] = Inr cards"
| "get_cards cards ((key, None) # kwargs) = get_cards cards kwargs"
| "get_cards cards ((key, Some val) # kwargs) =
     res_bind (filter_cards key (lower val) cards) (\<lambda>cards'. get_cards cards' kwargs)"

text \<open>\<open>get_card\<close>: the first card of the query, or \<open>None\<close>.\<close>

definition get_card ::
    "card list \<Rightarrow> string \<Rightarrow> string option \<Rightarrow> string option \<Rightarrow> error + card option" where
  "get_card db card_name set_id collector_number =
     res_bind
       (get_cards db
          [(''name'', Some card_name), (''set'', set_id),
           (''collector_number'', collector_number)])
       (\<lambda>cards. Inr (if length cards > 0 then Some (hd cards) else None))"

section \<open>Print scorer\<close>

text \<open>
  The local function \<open>score\<close> of \<open>recommend_print\<close>, statement by statement. Each
  \<open>card[...]\<close> may raise \<open>KeyError\<close>; \<open>and\<close> and \<open>or\<close> evaluate their right operand only
  when the left one does not decide.
\<close>

definition score :: "card \<Rightarrow> error + int" where
  "score c =
     (let points = (0::int) in
      res_bind (getitem c ''set'') (\<lambda>v_set.
      let points = (if v_set \<noteq> JStr ''mb1'' then points + 1 else points) in
      res_bind (getitem c ''frame'') (\<lambda>v_frame.
      let points = (if v_frame = JStr ''2015'' then points + 2 else points) in
      res_bind (getitem c ''digital'') (\<lambda>v_digital.
      let points = (if \<not> truthy v_digital then points + 4 else points) in
      res_bind (getitem c ''border_color'') (\<lambda>v_border.
      res_bind
        (if v_border = JStr ''black'' then
           (if c ''frame_effects'' = None then Inr True
            else res_bind (getitem c ''frame_effects'') (\<lambda>v_fe.
                 res_bind (py_contains ''extendedart'' v_fe) (\<lambda>b. Inr (\<not> b))))
         else Inr False) (\<lambda>cond_border.
      let points = (if cond_border then points + 8 else points) in
      res_bind (getitem c ''collector_number'') (\<lambda>v_number.
      res_bind (last_item v_number) (\<lambda>v_last.
      res_bind
        (if v_last \<notin> set [JStr ''p'', JStr ''s''] then
           res_bind (getitem c ''nonfoil'') (\<lambda>v_nonfoil. Inr (truthy v_nonfoil))
         else Inr False) (\<lambda>cond_number.
      let points = (if cond_number then points + 16 else points) in
      res_bind (getitem c ''highres_image'') (\<lambda>v_highres.
      let points = (if truthy v_highres then points + 32 else points) in
      res_bind (getitem c ''lang'') (\<lambda>v_lang.
      let points = (if v_lang = JStr ''en'' then points + 64 else points) in
      Inr points)))))))))))"

section \<open>Print recommender\<close>

text \<open>A list comprehension over a function that may raise: the first error ends it.\<close>

fun map_res :: "('a \<Rightarrow> error + 'b) \<Rightarrow> 'a list \<Rightarrow> error + 'b list" where
  "map_res f [] = Inr []"
| "map_res f (x # xs) =
     res_bind (f x) (\<lambda>y. res_bind (map_res f xs) (\<lambda>ys. Inr (y # ys)))"

text \<open>\<open>list.index\<close>: the position of the first element equal to \<open>x\<close>, \<open>ValueError\<close> when
  there is none. Cards are compared by value, as Python compares dictionaries.\<close>

fun index_of :: "'a \<Rightarrow> 'a list \<Rightarrow> nat option" where
  "index_of x [] = None"
| "index_of x (y # ys) = (if y = x then Some 0 else map_option Suc (index_of x ys))"

definition py_index :: "'a list \<Rightarrow> 'a \<Rightarrow> error + nat" where
  "py_index xs x = (case index_of x xs of None \<Rightarrow> Inl ValueError | Some i \<Rightarrow> Inr i)"

text \<open>\<open>np.max\<close> and \<open>np.argmax\<close> raise \<open>ValueError\<close> on an empty sequence; \<open>np.argmax\<close>
  returns the first position of the maximum.\<close>

definition np_max :: "int list \<Rightarrow> error + int" where
  "np_max xs = (if xs = [] then Inl ValueError else Inr (Max (set xs)))"

definition np_argmax :: "int list \<Rightarrow> error + nat" where
  "np_argmax xs = (if xs = [] then Inl ValueError else py_index xs (Max (set xs)))"

text \<open>\<open>np.array(xs)[idx]\<close>: the elements at the given positions, \<open>IndexError\<close> when a
  position is out of range.\<close>

definition np_take :: "'a list \<Rightarrow> nat list \<Rightarrow> error + 'a list" where
  "np_take xs idx =
     (if \<forall>i \<in> set idx. i < length xs then Inr (map (\<lambda>i. xs ! i) idx) else Inl IndexError)"

text \<open>The value \<open>recommend_print\<close> returns: \<open>None\<close>, one card, or a list of cards.\<close>

datatype recommendation = NoRecommendation | OneCard card | Cards "card list"

text \<open>
  \<open>recommend_print\<close>. \<open>db\<close> is the loaded database. \<open>np.argsort\<close> is the parameter
  \<open>argsort\<close>: NumPy's default sort is not stable, so the order it gives to equal scores
  is left open. In \<open>scores[alternatives.index(current)]\<close> the index is a position of
  \<open>alternatives\<close>, and \<open>scores\<close> has the same length; likewise for \<open>np.argmax\<close>. A mode
  other than \<open>best\<close> and \<open>all\<close> falls off the end of the function, which returns \<open>None\<close>.
\<close>

definition recommend_print ::
    "(int list \<Rightarrow> nat list) \<Rightarrow> card list \<Rightarrow> string \<Rightarrow> string option \<Rightarrow> string option \<Rightarrow>
     string option \<Rightarrow> string \<Rightarrow> error + recommendation" where
  "recommend_print argsort db card_name set_id collector_number oracle_id mode =
     res_bind
       (if set_id \<noteq> None \<and> collector_number \<noteq> None
        then get_card db card_name set_id collector_number
        else Inr None) (\<lambda>current.
     res_bind (get_cards db [(''name'', Some card_name), (''oracle_id'', oracle_id)])
       (\<lambda>alternatives.
     res_bind (map_res score alternatives) (\<lambda>scores.
     if mode = ''best'' then
       res_bind
         (case current of
            None \<Rightarrow> Inr False
          | Some cur \<Rightarrow>
              res_bind (py_index alternatives cur) (\<lambda>i.
              res_bind (np_max scores) (\<lambda>m. Inr (scores ! i = m)))) (\<lambda>no_better.
       if no_better then Inr NoRecommendation
       else res_bind (np_argmax scores) (\<lambda>i. Inr (OneCard (alternatives ! i))))
     else if mode = ''all'' then
       res_bind (np_take alternatives (argsort scores)) (\<lambda>ascending.
       let recommendations = rev ascending;
           recommendations =
             (case current of
                None \<Rightarrow> recommendations
              | Some cur \<Rightarrow>
                  cur # (if cur \<in> set recommendations then remove1 cur recommendations
                         else recommendations))
       in Inr (Cards recommendations))
     else Inr NoRecommendation)))"

section \<open>Regular expressions as \<open>re\<close> matches them\<close>

text \<open>
  The character classes of the decklist pattern on ASCII text. \<open>\s\<close> matches the characters
  for which \<open>str.isspace\<close> holds: tab, line feed, vertical tab, form feed, carriage return,
  the four separators \<open>0x1C\<close>--\<open>0x1F\<close> and the space; \<open>.\<close> matches anything but a line
  feed.
\<close>

definition newline :: char where
  "newline = CHR 0x0A"

definition is_digit :: "char \<Rightarrow> bool" where
  "is_digit c \<longleftrightarrow> c \<in> set ''0123456789''"

definition is_space :: "char \<Rightarrow> bool" where
  "is_space c \<longleftrightarrow>
     c \<in> set [CHR 0x09, CHR 0x0A, CHR 0x0B, CHR 0x0C, CHR 0x0D,
               CHR 0x1C, CHR 0x1D, CHR 0x1E, CHR 0x1F, CHR 0x20]"

definition non_space :: "char \<Rightarrow> bool" where
  "non_space c \<longleftrightarrow> \<not> is_space c"

definition any_char :: "char \<Rightarrow> bool" where
  "any_char c \<longleftrightarrow> c \<noteq> newline"

text \<open>
  The constructs the pattern uses: one character of a class (\<open>Sym\<close>), the greedy
  repetitions \<open>*\<close> and \<open>+\<close> and the lazy repetition \<open>+?\<close> of a class, concatenation, the
  greedy option \<open>(?:...)?\<close>, a numbered capture group, and \<open>$\<close>.
\<close>

datatype rx =
    Sym "char \<Rightarrow> bool"
  | StarG "char \<Rightarrow> bool"
  | PlusG "char \<Rightarrow> bool"
  | PlusL "char \<Rightarrow> bool"
  | Seq rx rx
  | Opt rx
  | Group nat rx
  | Eos

type_synonym groups = "nat \<rightharpoonup> string"

text \<open>
  The backtracking matcher. \<open>run r s g\<close> lists every way \<open>r\<close> can match a prefix of \<open>s\<close>,
  in the order in which the backtracking engine tries them: each result is the rest of
  the input after the match and the capture groups set so far. A greedy repetition tries
  the longest run first, a lazy one the shortest; an option tries its body before
  skipping it. \<open>$\<close> matches at the end of the string and before a line feed that ends the
  string.
\<close>

fun run :: "rx \<Rightarrow> string \<Rightarrow> groups \<Rightarrow> (string \<times> groups) list" where
  "run (Sym P) s g = (case s of [] \<Rightarrow> [] | c # cs \<Rightarrow> if P c then [(cs, g)] else [])"
| "run (StarG P) s g = map (\<lambda>k. (drop k s, g)) (rev [0..<Suc (length (takeWhile P s))])"
| "run (PlusG P) s g = map (\<lambda>k. (drop k s, g)) (rev [1..<Suc (length (takeWhile P s))])"
| "run (PlusL P) s g = map (\<lambda>k. (drop k s, g)) [1..<Suc (length (takeWhile P s))]"
| "run (Seq r1 r2) s g = concat (map (\<lambda>(s1, g1). run r2 s1 g1) (run r1 s g))"
| "run (Opt r) s g = run r s g @ [(s, g)]"
| "run (Group n r) s g =
     map (\<lambda>(s', g'). (s', g'(n \<mapsto> take (length s - length s') s))) (run r s g)"
| "run Eos s g = (if s = [] \<or> s = [newline] then [(s, g)] else [])"

text \<open>\<open>re.search\<close>: the first match at the leftmost position where there is one.\<close>

fun re_search :: "rx \<Rightarrow> string \<Rightarrow> groups option" where
  "re_search r s =
     (case run r s Map.empty of
        (s', g) # _ \<Rightarrow> Some g
      | [] \<Rightarrow> (case s of [] \<Rightarrow> None | c # cs \<Rightarrow> re_search r cs))"

text \<open>The pattern of \<open>parse_decklist_stream\<close>:
  \<^verbatim>\<open>([0-9]+)\s+(.+?)(?:\s+\((\S*)\)\s+(\S+))?\s*$\<close>\<close>

definition decklist_pattern :: rx where
  "decklist_pattern =
     Seq (Group 1 (PlusG is_digit))
    (Seq (PlusG is_space)
    (Seq (Group 2 (PlusL any_char))
    (Seq (Opt
           (Seq (PlusG is_space)
           (Seq (Sym (\<lambda>c. c = CHR ''(''))
           (Seq (Group 3 (StarG non_space))
           (Seq (Sym (\<lambda>c. c = CHR '')''))
           (Seq (PlusG is_space)
                (Group 4 (PlusG non_space))))))))
    (Seq (StarG is_space)
         Eos))))"

section \<open>Decklists\<close>

text \<open>\<open>str.strip()\<close>, \<open>str.upper()\<close>, \<open>str.join\<close>, \<open>str(int)\<close> and \<open>int(str)\<close> on a run of
  digits.\<close>

definition strip :: "string \<Rightarrow> string" where
  "strip s = rev (dropWhile is_space (rev (dropWhile is_space s)))"

definition upper_char :: "char \<Rightarrow> char" where
  "upper_char c =
     (case map_of (zip ''abcdefghijklmnopqrstuvwxyz'' ''ABCDEFGHIJKLMNOPQRSTUVWXYZ'') c of
        None \<Rightarrow> c
      | Some d \<Rightarrow> d)"

definition upper :: "string \<Rightarrow> string" where
  "upper s = map upper_char s"

fun join :: "string \<Rightarrow> string list \<Rightarrow> string" where
  "join sep [] = []"
| "join sep [x] = x"
| "join sep (x # y # ys) = x @ sep @ join sep (y # ys)"

definition digit_char :: "nat \<Rightarrow> char" where
  "digit_char d = ''0123456789'' ! d"

function str_nat :: "nat \<Rightarrow> string" where
  "str_nat n = (if n < 10 then [digit_char n] else str_nat (n div 10) @ [digit_char (n mod 10)])"
  by pat_completeness auto

termination
  by (relation "measure id") auto

definition str_int :: "int \<Rightarrow> string" where
  "str_int i = (if i < 0 then CHR ''-'' # str_nat (nat (- i)) else str_nat (nat i))"

definition digit_value :: "char \<Rightarrow> int" where
  "digit_value c = int (of_char c) - 48"

text \<open>
  \<open>int(s)\<close>, modelled on the strings it is called on here: a non-empty run of the digits
  \<open>0\<close>--\<open>9\<close> (what group 1 of the pattern holds). CPython refuses to convert a string of
  more than \<open>sys.int_info.default_max_str_digits\<close> = 4300 digits and raises \<open>ValueError\<close>;
  leading zeros count. Any string that is not a run of digits is reported as
  \<open>ValueError\<close> too.
\<close>

definition int_max_str_digits :: nat where
  "int_max_str_digits = 4300"

definition py_int :: "string \<Rightarrow> error + int" where
  "py_int s =
     (if s \<noteq> [] \<and> list_all is_digit s \<and> length s \<le> int_max_str_digits
      then Inr (foldl (\<lambda>n c. 10 * n + digit_value c) 0 s)
      else Inl ValueError)"

text \<open>The two kinds of decklist entry and the decklist.\<close>

datatype entry = Card int card | Comment string

record decklist =
  entries :: "entry list"

definition append_card :: "decklist \<Rightarrow> int \<Rightarrow> card \<Rightarrow> decklist" where
  "append_card d n c = d\<lparr>entries := entries d @ [Card n c]\<rparr>"

definition append_comment :: "decklist \<Rightarrow> string \<Rightarrow> decklist" where
  "append_comment d t = d\<lparr>entries := entries d @ [Comment t]\<rparr>"

text \<open>
  Python's text for a field value in an f-string. For a list this is its \<open>repr\<close>, which
  is taken as the parameter \<open>repr_list\<close>.
\<close>

fun py_str :: "(string list \<Rightarrow> string) \<Rightarrow> jval \<Rightarrow> string" where
  "py_str repr_list (JStr s) = s"
| "py_str repr_list (JBool b) = (if b then ''True'' else ''False'')"
| "py_str repr_list (JList xs) = repr_list xs"

fun py_upper :: "jval \<Rightarrow> error + string" where
  "py_upper (JStr s) = Inr (upper s)"
| "py_upper (JBool b) = Inl AttributeError"
| "py_upper (JList xs) = Inl AttributeError"

text \<open>\<open>Card.__format__\<close>, \<open>Comment.__format__\<close> and \<open>Decklist.__format__\<close>;
  \<open>os.linesep\<close> is the parameter \<open>linesep\<close>.\<close>

definition format_card ::
    "(string list \<Rightarrow> string) \<Rightarrow> int \<Rightarrow> card \<Rightarrow> string \<Rightarrow> error + string" where
  "format_card repr_list n c format_spec =
     (if format_spec = ''text'' then
        res_bind (getitem c ''name'') (\<lambda>v_name.
        Inr (str_int n @ '' '' @ py_str repr_list v_name))
      else if format_spec = ''arena'' then
        res_bind (getitem c ''name'') (\<lambda>v_name.
        res_bind (getitem c ''set'') (\<lambda>v_set.
        res_bind (py_upper v_set) (\<lambda>set_upper.
        res_bind (getitem c ''collector_number'') (\<lambda>v_number.
        Inr (str_int n @ '' '' @ py_str repr_list v_name @ '' ('' @ set_upper @ '') ''
               @ py_str repr_list v_number)))))
      else Inl (UnknownFormat format_spec))"

fun format_entry :: "(string list \<Rightarrow> string) \<Rightarrow> entry \<Rightarrow> string \<Rightarrow> error + string" where
  "format_entry repr_list (Card n c) format_spec = format_card repr_list n c format_spec"
| "format_entry repr_list (Comment t) format_spec = Inr t"

definition format_decklist ::
    "string \<Rightarrow> (string list \<Rightarrow> string) \<Rightarrow> decklist \<Rightarrow> string \<Rightarrow> error + string" where
  "format_decklist linesep repr_list d format_spec =
     res_bind (map_res (\<lambda>e. format_entry repr_list e format_spec) (entries d)) (\<lambda>lines.
     Inr (join linesep lines))"

section \<open>Decklist parser\<close>

text \<open>
  \<open>parse_decklist_stream\<close>. The stream is the list of its lines, each with its line end.
  \<open>validate_card_name\<close> and \<open>validate_print\<close> belong to the module
  \<open>mtgproxies.decklists.sanitizing\<close> and are parameters: each returns its result and a
  list of warnings. The warnings are printed, which leaves the returned pair unchanged.
  A group that took no part in the match is \<open>None\<close>. An exception raised by \<open>int\<close> is
  not caught: it ends the whole parse.
\<close>

definition parse_line ::
    "(string \<Rightarrow> string option \<times> string list) \<Rightarrow>
     (string \<Rightarrow> string option \<Rightarrow> string option \<Rightarrow> card \<times> string list) \<Rightarrow>
     decklist \<times> bool \<Rightarrow> string \<Rightarrow> error + decklist \<times> bool" where
  "parse_line validate_card_name validate_print st line =
     (case st of (decklist, ok) \<Rightarrow>
      case re_search decklist_pattern line of
        Some m \<Rightarrow>
          res_bind (case m 1 of None \<Rightarrow> Inl TypeError | Some g1 \<Rightarrow> py_int g1) (\<lambda>count.
          res_bind (case m 2 of None \<Rightarrow> Inl TypeError | Some g2 \<Rightarrow> Inr g2) (\<lambda>card_name.
          let set_id = m 3;
              collector_number = m 4;
              (card_name, warnings) = validate_card_name card_name
          in case card_name of
               None \<Rightarrow> Inr (append_comment decklist (strip line), False)
             | Some card_name \<Rightarrow>
                 let (card, warnings) = validate_print card_name set_id collector_number
                 in Inr (append_card decklist count card, ok)))
      | None \<Rightarrow> Inr (append_comment decklist (strip line), ok))"

fun parse_lines ::
    "(string \<Rightarrow> string option \<times> string list) \<Rightarrow>
     (string \<Rightarrow> string option \<Rightarrow> string option \<Rightarrow> card \<times> string list) \<Rightarrow>
     decklist \<times> bool \<Rightarrow> string list \<Rightarrow> error + decklist \<times> bool" where
  "parse_lines validate_card_name validate_print st [] = Inr st"
| "parse_lines validate_card_name validate_print st (line # stream) =
     res_bind (parse_line validate_card_name validate_print st line)
       (\<lambda>st'. parse_lines validate_card_name validate_print st' stream)"

definition parse_decklist_stream ::
    "(string \<Rightarrow> string option \<times> string list) \<Rightarrow>
     (string \<Rightarrow> string option \<Rightarrow> string option \<Rightarrow> card \<times> string list) \<Rightarrow>
     string list \<Rightarrow> error + decklist \<times> bool" where
  "parse_decklist_stream validate_card_name validate_print stream =
     parse_lines validate_card_name validate_print (\<lparr>entries = []\<rparr>, True) stream"

section \<open>Notions used to state the properties\<close>

subsection \<open>The scoring table\<close>

text \<open>
  The fields of a card record that the scorer reads, with the types they have in the
  Scryfall schema; \<open>frame_effects\<close> is optional.
\<close>

record card_fields =
  cf_set :: string
  cf_frame :: string
  cf_digital :: bool
  cf_border_color :: string
  cf_frame_effects :: "string list option"
  cf_collector_number :: string
  cf_nonfoil :: bool
  cf_highres_image :: bool
  cf_lang :: string

text \<open>\<open>has_fields c r\<close>: the record \<open>c\<close> holds exactly the field values \<open>r\<close> under the
  nine keys (it may hold any other keys besides).\<close>

definition has_fields :: "card \<Rightarrow> card_fields \<Rightarrow> bool" where
  "has_fields c r \<longleftrightarrow>
     c ''set'' = Some (JStr (cf_set r)) \<and>
     c ''frame'' = Some (JStr (cf_frame r)) \<and>
     c ''digital'' = Some (JBool (cf_digital r)) \<and>
     c ''border_color'' = Some (JStr (cf_border_color r)) \<and>
     c ''frame_effects'' = map_option JList (cf_frame_effects r) \<and>
     c ''collector_number'' = Some (JStr (cf_collector_number r)) \<and>
     c ''nonfoil'' = Some (JBool (cf_nonfoil r)) \<and>
     c ''highres_image'' = Some (JBool (cf_highres_image r)) \<and>
     c ''lang'' = Some (JStr (cf_lang r))"

text \<open>The seven criteria of the table, in the order of their weights.\<close>

definition criteria :: "card_fields \<Rightarrow> bool list" where
  "criteria r =
     [cf_set r \<noteq> ''mb1'',
      cf_frame r = ''2015'',
      \<not> cf_digital r,
      cf_border_color r = ''black'' \<and>
        (case cf_frame_effects r of None \<Rightarrow> True | Some fe \<Rightarrow> ''extendedart'' \<notin> set fe),
      last (cf_collector_number r) \<noteq> CHR ''p'' \<and> last (cf_collector_number r) \<noteq> CHR ''s''
        \<and> cf_nonfoil r,
      cf_highres_image r,
      cf_lang r = ''en'']"

definition weights :: "int list" where
  "weights = [1, 2, 4, 8, 16, 32, 64]"

definition table_score :: "card_fields \<Rightarrow> int" where
  "table_score r = (\<Sum>(b, w) \<leftarrow> zip (criteria r) weights. if b then w else 0)"

definition score_fields :: "string list" where
  "score_fields = [''set'', ''frame'', ''digital'', ''border_color'', ''frame_effects'',
     ''collector_number'', ''nonfoil'', ''highres_image'', ''lang'']"

text \<open>The example card of the specification, as typed fields and as a record.\<close>

definition example_fields :: card_fields where
  "example_fields =
     \<lparr>cf_set = ''mb1'', cf_frame = ''2015'', cf_digital = False, cf_border_color = ''black'',
      cf_frame_effects = Some [], cf_collector_number = ''123'', cf_nonfoil = True,
      cf_highres_image = True, cf_lang = ''en''\<rparr>"

definition example_card :: card where
  "example_card =
     [''set'' \<mapsto> JStr ''mb1'', ''frame'' \<mapsto> JStr ''2015'', ''digital'' \<mapsto> JBool False,
      ''border_color'' \<mapsto> JStr ''black'', ''frame_effects'' \<mapsto> JList [],
      ''collector_number'' \<mapsto> JStr ''123'', ''nonfoil'' \<mapsto> JBool True,
      ''highres_image'' \<mapsto> JBool True, ''lang'' \<mapsto> JStr ''en'']"

text \<open>One step of the point accumulation, named for the proofs.\<close>

definition add_if :: "bool \<Rightarrow> int \<Rightarrow> int \<Rightarrow> int" where
  "add_if b p w = (if b then p + w else p)"

subsection \<open>Filters of the database query\<close>

text \<open>
  A record passes one filter when the filter's value is absent, or the record holds the
  field with a string equal to the filter's value up to case.
\<close>

definition matches_filter :: "card \<Rightarrow> string \<times> string option \<Rightarrow> bool" where
  "matches_filter c kv =
     (case snd kv of
        None \<Rightarrow> True
      | Some val \<Rightarrow> (case c (fst kv) of Some (JStr s) \<Rightarrow> lower s = lower val | _ \<Rightarrow> False))"

definition matches_all :: "(string \<times> string option) list \<Rightarrow> card \<Rightarrow> bool" where
  "matches_all kwargs c = list_all (matches_filter c) kwargs"

fun is_str :: "jval \<Rightarrow> bool" where
  "is_str (JStr s) = True"
| "is_str (JBool b) = False"
| "is_str (JList xs) = False"

text \<open>Every value that a record of \<open>db\<close> holds under a filtered key is a string.\<close>

definition string_valued :: "card list \<Rightarrow> (string \<times> string option) list \<Rightarrow> bool" where
  "string_valued db kwargs =
     list_all (\<lambda>kv. snd kv = None \<or>
        list_all (\<lambda>c. case c (fst kv) of None \<Rightarrow> True | Some v \<Rightarrow> is_str v) db) kwargs"

definition get_card_kwargs ::
    "string \<Rightarrow> string option \<Rightarrow> string option \<Rightarrow> (string \<times> string option) list" where
  "get_card_kwargs card_name set_id collector_number =
     [(''name'', Some card_name), (''set'', set_id), (''collector_number'', collector_number)]"

text \<open>A database of two prints of one card, used to instantiate the theorems.\<close>

definition print_mb1 :: card where
  "print_mb1 =
     example_card(''name'' \<mapsto> JStr ''Blood Crypt'', ''collector_number'' \<mapsto> JStr ''1596'')"

definition print_rna :: card where
  "print_rna =
     example_card(''name'' \<mapsto> JStr ''Blood Crypt'', ''set'' \<mapsto> JStr ''rna'',
       ''collector_number'' \<mapsto> JStr ''245'')"

definition sample_db :: "card list" where
  "sample_db = [print_mb1, print_rna]"

subsection \<open>Sorting and maxima of scores\<close>

text \<open>
  What is assumed of \<open>np.argsort\<close>: it returns a permutation of the positions that puts
  the scores in ascending order. A stable sort of the positions is one such function.
\<close>

definition argsort_ok :: "(int list \<Rightarrow> nat list) \<Rightarrow> bool" where
  "argsort_ok argsort \<longleftrightarrow>
     (\<forall>xs. mset (argsort xs) = mset [0..<length xs] \<and> sorted (map (\<lambda>i. xs ! i) (argsort xs)))"

definition stable_argsort :: "int list \<Rightarrow> nat list" where
  "stable_argsort xs = sort_key (\<lambda>i. xs ! i) [0..<length xs]"

text \<open>\<open>scores_desc a b\<close>: both cards have a score, and the score of \<open>a\<close> is at least that of
  \<open>b\<close>. A list sorted with respect to it is in descending score order.\<close>

definition scores_desc :: "card \<Rightarrow> card \<Rightarrow> bool" where
  "scores_desc a b \<longleftrightarrow> (\<exists>sa sb. score a = Inr sa \<and> score b = Inr sb \<and> sb \<le> sa)"

text \<open>\<open>max_score alts m\<close>: \<open>m\<close> is the maximum score among the cards \<open>alts\<close>.\<close>

definition max_score :: "card list \<Rightarrow> int \<Rightarrow> bool" where
  "max_score alts m \<longleftrightarrow>
     (\<exists>a \<in> set alts. score a = Inr m) \<and> (\<forall>a \<in> set alts. \<forall>s. score a = Inr s \<longrightarrow> s \<le> m)"

subsection \<open>The pattern and the lines of a decklist\<close>

text \<open>The groups a regular expression can set.\<close>

fun groups_of :: "rx \<Rightarrow> nat set" where
  "groups_of (Seq r1 r2) = groups_of r1 \<union> groups_of r2"
| "groups_of (Opt r) = groups_of r"
| "groups_of (Group n r) = insert n (groups_of r)"
| "groups_of _ = {}"

text \<open>
  \<open>name_fails\<close>: the line matches the pattern and the sanitizer rejects its name.
  \<open>count_too_long\<close>: the line matches the pattern and its count has more digits than
  \<open>int\<close> converts. \<open>line_entry\<close>: the entry that one line contributes.
\<close>

definition name_fails :: "(string \<Rightarrow> string option \<times> string list) \<Rightarrow> string \<Rightarrow> bool" where
  "name_fails validate_card_name line =
     (case re_search decklist_pattern line of
        None \<Rightarrow> False
      | Some m \<Rightarrow>
          (case m 2 of None \<Rightarrow> False | Some name \<Rightarrow> fst (validate_card_name name) = None))"

definition count_too_long :: "string \<Rightarrow> bool" where
  "count_too_long line =
     (case re_search decklist_pattern line of
        None \<Rightarrow> False
      | Some m \<Rightarrow> (case m 1 of None \<Rightarrow> False | Some g1 \<Rightarrow> int_max_str_digits < length g1))"

definition line_entry ::
    "(string \<Rightarrow> string option \<times> string list) \<Rightarrow>
     (string \<Rightarrow> string option \<Rightarrow> string option \<Rightarrow> card \<times> string list) \<Rightarrow> string \<Rightarrow> entry" where
  "line_entry validate_card_name validate_print line =
     (case re_search decklist_pattern line of
        None \<Rightarrow> Comment (strip line)
      | Some m \<Rightarrow>
          (case (m 1, m 2) of
             (Some g1, Some name) \<Rightarrow>
               (case (py_int g1, fst (validate_card_name name)) of
                  (Inr n, Some name') \<Rightarrow> Card n (fst (validate_print name' (m 3) (m 4)))
                | _ \<Rightarrow> Comment (strip line))
           | _ \<Rightarrow> Comment (strip line)))"

text \<open>Sample collaborators: a sanitizer that knows two card names, and a print lookup
  that always answers with the same print.\<close>

definition sample_validate_card_name :: "string \<Rightarrow> string option \<times> string list" where
  "sample_validate_card_name name =
     (if name \<in> set [''Blood Crypt'', ''Forest''] then (Some name, [])
      else (None, [''Unable to find card'']))"

definition sample_validate_print ::
    "string \<Rightarrow> string option \<Rightarrow> string option \<Rightarrow> card \<times> string list" where
  "sample_validate_print name set_id collector_number = (print_rna, [])"

definition sample_stream :: "string list" where
  "sample_stream =
     [''4 Blood Crypt (RNA) 245'' @ [newline], ''// sideboard'' @ [newline],
      ''1 Blood Crpt'' @ [newline], ''0 Forest'']"

text \<open>
  \<open>accepts r w post\<close>: the regular expression \<open>r\<close> matches exactly the text \<open>w\<close> when
  \<open>post\<close> is the text that follows (only \<open>$\<close> looks at what follows).
\<close>

fun accepts :: "rx \<Rightarrow> string \<Rightarrow> string \<Rightarrow> bool" where
  "accepts (Sym P) w post = (length w = 1 \<and> list_all P w)"
| "accepts (StarG P) w post = list_all P w"
| "accepts (PlusG P) w post = (w \<noteq> [] \<and> list_all P w)"
| "accepts (PlusL P) w post = (w \<noteq> [] \<and> list_all P w)"
| "accepts (Seq r1 r2) w post =
     list_ex (\<lambda>k. accepts r1 (take k w) (drop k w @ post) \<and> accepts r2 (drop k w) post)
       [0..<Suc (length w)]"
| "accepts (Opt r) w post = (w = [] \<or> accepts r w post)"
| "accepts (Group n r) w post = accepts r w post"
| "accepts Eos w post = (w = [] \<and> (post = [] \<or> post = [newline]))"




subsection \<open>Formatting\<close>

definition sample_repr_list :: "string list \<Rightarrow> string" where
  "sample_repr_list xs = ''[]''"

section \<open>The scorer follows the table\<close>

lemma res_bind_Inr_iff:
  "res_bind m f = Inr y \<longleftrightarrow> (\<exists>v. m = Inr v \<and> f v = Inr y)"
  by (cases m) (simp_all add: res_bind_def)

lemma res_bind_Inr [simp]: "res_bind (Inr v) f = f v"
  by (simp add: res_bind_def)

lemma res_bind_Inl [simp]: "res_bind (Inl e) f = Inl e"
  by (simp add: res_bind_def)

lemma add_if_nonneg: "0 \<le> p \<Longrightarrow> 0 \<le> w \<Longrightarrow> 0 \<le> add_if b p w"
  by (simp add: add_if_def)

lemma score_has_fields:
  assumes "has_fields c r" and "cf_collector_number r \<noteq> []"
  shows "score c = Inr (table_score r)"
  using assms
  by (cases "cf_frame_effects r")
     (simp_all add: has_fields_def score_def res_bind_def getitem_def table_score_def
        criteria_def weights_def Let_def)

lemma score_nonneg: "score c = Inr n \<Longrightarrow> 0 \<le> n"
  unfolding score_def Let_def res_bind_Inr_iff add_if_def[symmetric]
  apply (elim exE conjE)
  apply (simp only: sum.inject)
  apply hypsubst
  apply (intro add_if_nonneg)
  apply simp_all
  done

lemma score_depends:
  assumes "\<forall>k \<in> set score_fields. c k = c' k"
  shows "score c = score c'"
proof -
  from assms have "c ''set'' = c' ''set''" "c ''frame'' = c' ''frame''"
    "c ''digital'' = c' ''digital''" "c ''border_color'' = c' ''border_color''"
    "c ''frame_effects'' = c' ''frame_effects''"
    "c ''collector_number'' = c' ''collector_number''" "c ''nonfoil'' = c' ''nonfoil''"
    "c ''highres_image'' = c' ''highres_image''" "c ''lang'' = c' ''lang''"
    by (simp_all add: score_fields_def)
  then show ?thesis
    unfolding score_def getitem_def by (simp only:)
qed

lemma table_score_flip:
  assumes "i < 7" and "\<not> criteria r ! i" and "criteria r' ! i"
    and "\<forall>j<7. j \<noteq> i \<longrightarrow> criteria r' ! j = criteria r ! j"
  shows "table_score r' = table_score r + weights ! i"
proof -
  obtain a0 a1 a2 a3 a4 a5 a6 where a: "criteria r = [a0, a1, a2, a3, a4, a5, a6]"
    by (simp add: criteria_def)
  obtain b0 b1 b2 b3 b4 b5 b6 where b: "criteria r' = [b0, b1, b2, b3, b4, b5, b6]"
    by (simp add: criteria_def)
  have all: "\<And>j. j < 7 \<Longrightarrow> j \<noteq> i \<Longrightarrow>
      [b0, b1, b2, b3, b4, b5, b6] ! j = [a0, a1, a2, a3, a4, a5, a6] ! j"
    using assms(4) unfolding a b by blast
  have eqs:
    "0 \<noteq> i \<longrightarrow> b0 = a0" "1 \<noteq> i \<longrightarrow> b1 = a1" "2 \<noteq> i \<longrightarrow> b2 = a2" "3 \<noteq> i \<longrightarrow> b3 = a3"
    "4 \<noteq> i \<longrightarrow> b4 = a4" "5 \<noteq> i \<longrightarrow> b5 = a5" "6 \<noteq> i \<longrightarrow> b6 = a6"
    using all[of 0] all[of 1] all[of 2] all[of 3] all[of 4] all[of 5] all[of 6]
    by simp_all
  from \<open>i < 7\<close> consider "i = 0" | "i = 1" | "i = 2" | "i = 3" | "i = 4" | "i = 5" | "i = 6"
    by linarith
  then show ?thesis
    using assms(2,3) eqs unfolding table_score_def weights_def a b
    by cases simp_all
qed

lemma weights_pos: "i < 7 \<Longrightarrow> 0 < weights ! i"
proof -
  assume "i < 7"
  then consider "i = 0" | "i = 1" | "i = 2" | "i = 3" | "i = 4" | "i = 5" | "i = 6"
    by linarith
  then show ?thesis by cases (simp_all add: weights_def)
qed

lemma table_score_example: "table_score example_fields = 126"
  by (simp add: table_score_def criteria_def weights_def example_fields_def)

lemma has_fields_example: "has_fields example_card example_fields"
  by (simp add: has_fields_def example_card_def example_fields_def)

text \<open>
  Claim C1, amended. For every card record that holds the nine fields with their types and
  whose collector number is not empty, the score is the sum of the seven tabulated weighted
  criteria; the example card of the specification scores 126; whenever the scorer returns,
  the score is a nonnegative integer; and the score depends only on the nine fields.
\<close>

theorem score_is_table_sum:
  "(has_fields c r \<and> cf_collector_number r \<noteq> [] \<longrightarrow>
      score c = Inr (table_score r) \<and> 0 \<le> table_score r) \<and>
   score example_card = Inr 126 \<and>
   (score c = Inr n \<longrightarrow> 0 \<le> n) \<and>
   ((\<forall>k \<in> set score_fields. c k = c' k) \<longrightarrow> score c = score c')"
proof (intro conjI impI)
  assume h: "has_fields c r \<and> cf_collector_number r \<noteq> []"
  then show "score c = Inr (table_score r)"
    by (simp add: score_has_fields)
  with score_nonneg show "0 \<le> table_score r"
    by blast
next
  show "score example_card = Inr 126"
    using score_has_fields[OF has_fields_example] table_score_example
    by (simp add: example_fields_def)
next
  assume "score c = Inr n"
  then show "0 \<le> n" by (rule score_nonneg)
next
  assume "\<forall>k \<in> set score_fields. c k = c' k"
  then show "score c = score c'" by (rule score_depends)
qed

theorem score_is_table_sum_witness:
  "has_fields example_card example_fields \<and> cf_collector_number example_fields \<noteq> [] \<and>
   score example_card = Inr (table_score example_fields) \<and>
   table_score example_fields = 126 \<and>
   score (example_card(''name'' \<mapsto> JStr ''Opt'')) = score example_card"
proof -
  let ?c' = "example_card(''name'' \<mapsto> JStr ''Opt'')"
  note t = score_is_table_sum[of example_card example_fields 126 ?c']
  have nonempty: "cf_collector_number example_fields \<noteq> []"
    by (simp add: example_fields_def)
  have agree: "\<forall>k \<in> set score_fields. example_card k = ?c' k"
    by (simp add: score_fields_def)
  from t has_fields_example nonempty have "score example_card = Inr (table_score example_fields)"
    by blast
  moreover from t agree have "score ?c' = score example_card"
    by metis
  ultimately show ?thesis
    using has_fields_example nonempty table_score_example by simp
qed

text \<open>
  The claim as stated fails on a record with an empty collector number: reading its last
  character raises \<open>IndexError\<close>, so the scorer returns no integer.
\<close>

theorem score_empty_collector_number:
  "score (example_card(''collector_number'' \<mapsto> JStr [])) = Inl IndexError"
  by (simp add: score_def getitem_def example_card_def)

text \<open>
  Claim C9. For two card records whose criteria are all defined (the nine fields present,
  collector numbers not empty): if one criterion is unsatisfied in the first and satisfied
  in the second, and the other six have the same truth values, the score of the second is
  the score of the first plus that criterion's weight, which is positive.
\<close>

theorem score_flip_one_criterion:
  assumes "has_fields c r" and "cf_collector_number r \<noteq> []"
    and "has_fields c' r'" and "cf_collector_number r' \<noteq> []"
    and "i < 7" and "\<not> criteria r ! i" and "criteria r' ! i"
    and "\<forall>j<7. j \<noteq> i \<longrightarrow> criteria r' ! j = criteria r ! j"
  shows "\<exists>n. score c = Inr n \<and> score c' = Inr (n + weights ! i) \<and> 0 < weights ! i
           \<and> weights ! i = 2 ^ i"
proof -
  have "score c = Inr (table_score r)"
    using assms(1,2) by (rule score_has_fields)
  moreover have "score c' = Inr (table_score r + weights ! i)"
    using score_has_fields[OF assms(3,4)] table_score_flip[OF assms(5-8)] by simp
  moreover have "0 < weights ! i"
    using assms(5) by (rule weights_pos)
  moreover have "weights ! i = 2 ^ i"
  proof -
    from \<open>i < 7\<close> consider "i = 0" | "i = 1" | "i = 2" | "i = 3" | "i = 4" | "i = 5" | "i = 6"
      by linarith
    then show ?thesis by cases (simp_all add: weights_def)
  qed
  ultimately show ?thesis by blast
qed

theorem score_flip_one_criterion_witness:
  "score example_card = Inr 126 \<and> score (example_card(''set'' \<mapsto> JStr ''rna'')) = Inr 127"
proof -
  let ?c' = "example_card(''set'' \<mapsto> JStr ''rna'')"
  let ?r' = "example_fields\<lparr>cf_set := ''rna''\<rparr>"
  have 1: "has_fields ?c' ?r'"
    by (simp add: has_fields_def example_card_def example_fields_def)
  have 2: "cf_collector_number example_fields \<noteq> []" "cf_collector_number ?r' \<noteq> []"
    by (simp_all add: example_fields_def)
  have 3: "\<not> criteria example_fields ! 0" "criteria ?r' ! 0"
    by (simp_all add: criteria_def example_fields_def)
  have 4: "\<forall>j<7. j \<noteq> 0 \<longrightarrow> criteria ?r' ! j = criteria example_fields ! j"
    by (simp add: criteria_def example_fields_def nth_Cons')
  obtain n where n: "score example_card = Inr n" "score ?c' = Inr (n + weights ! 0)"
    using score_flip_one_criterion[OF has_fields_example 2(1) 1 2(2) _ 3 4] by auto
  have "score example_card = Inr 126"
    using score_has_fields[OF has_fields_example 2(1)] table_score_example by simp
  with n show ?thesis by (simp add: weights_def)
qed

section \<open>The query returns the matching records\<close>

lemma filter_cards_strings:
  assumes "list_all (\<lambda>c. case c key of None \<Rightarrow> True | Some v \<Rightarrow> is_str v) cs"
  shows "filter_cards key (lower val) cs = Inr (filter (\<lambda>c. matches_filter c (key, Some val)) cs)"
  using assms
proof (induction cs)
  case Nil
  then show ?case by simp
next
  case (Cons c cs)
  then have rest: "filter_cards key (lower val) cs =
      Inr (filter (\<lambda>c. matches_filter c (key, Some val)) cs)"
    by simp
  show ?case
  proof (cases "c key")
    case None
    with rest show ?thesis by (simp add: matches_filter_def)
  next
    case (Some v)
    with Cons.prems obtain s where "v = JStr s"
      by (cases v) simp_all
    with Some rest show ?thesis by (simp add: matches_filter_def)
  qed
qed

lemma string_valued_filter:
  "string_valued db kwargs \<Longrightarrow> string_valued (filter P db) kwargs"
  by (induction kwargs) (auto simp: string_valued_def list_all_iff)

lemma get_cards_strings:
  "string_valued db kwargs \<Longrightarrow> get_cards db kwargs = Inr (filter (matches_all kwargs) db)"
proof (induction db kwargs rule: get_cards.induct)
  case (1 cards)
  then show ?case by (simp add: matches_all_def)
next
  case (2 cards key kwargs)
  then show ?case by (simp add: matches_all_def string_valued_def matches_filter_def)
next
  case (3 cards key val kwargs)
  let ?cards' = "filter (\<lambda>c. matches_filter c (key, Some val)) cards"
  from "3.prems" have fc: "filter_cards key (lower val) cards = Inr ?cards'"
    by (intro filter_cards_strings) (simp add: string_valued_def)
  from "3.prems" have "string_valued cards kwargs"
    by (simp add: string_valued_def)
  then have "string_valued ?cards' kwargs"
    by (rule string_valued_filter)
  with "3.IH"[of ?cards'] have "get_cards ?cards' kwargs = Inr (filter (matches_all kwargs) ?cards')"
    by simp
  with fc show ?case
    by (simp add: matches_all_def conj_commute)
qed

lemma get_card_strings:
  assumes "string_valued db (get_card_kwargs card_name set_id collector_number)"
  shows "get_card db card_name set_id collector_number =
     Inr (case filter (matches_all (get_card_kwargs card_name set_id collector_number)) db of
            [] \<Rightarrow> None | c # cs \<Rightarrow> Some c)"
  using get_cards_strings[OF assms]
  by (simp add: get_card_def get_card_kwargs_def split: list.splits)

text \<open>
  Claim C5, amended. When every value that a record holds under a filtered key is a
  string, \<open>get_cards\<close> returns exactly the records of the database, in database order,
  that pass every filter; when none passes it returns the empty list; and \<open>get_card\<close>
  returns the first record of that result, or \<open>None\<close> when it is empty.
\<close>

theorem get_cards_exact:
  "(string_valued db kwargs \<longrightarrow>
      get_cards db kwargs = Inr (filter (matches_all kwargs) db) \<and>
      ((\<forall>c \<in> set db. \<not> matches_all kwargs c) \<longrightarrow> get_cards db kwargs = Inr [])) \<and>
   (string_valued db (get_card_kwargs card_name set_id collector_number) \<longrightarrow>
      get_card db card_name set_id collector_number =
        Inr (case filter (matches_all (get_card_kwargs card_name set_id collector_number)) db of
               [] \<Rightarrow> None | c # cs \<Rightarrow> Some c))"
proof (intro conjI impI)
  assume sv: "string_valued db kwargs"
  then show "get_cards db kwargs = Inr (filter (matches_all kwargs) db)"
    by (rule get_cards_strings)
  assume "\<forall>c \<in> set db. \<not> matches_all kwargs c"
  then have "filter (matches_all kwargs) db = []"
    by (simp add: filter_empty_conv)
  with sv show "get_cards db kwargs = Inr []"
    by (simp add: get_cards_strings)
next
  assume "string_valued db (get_card_kwargs card_name set_id collector_number)"
  then show "get_card db card_name set_id collector_number =
        Inr (case filter (matches_all (get_card_kwargs card_name set_id collector_number)) db of
               [] \<Rightarrow> None | c # cs \<Rightarrow> Some c)"
    by (rule get_card_strings)
qed

lemma lower_simps [simp]: "lower [] = []" "lower (c # cs) = lower_char c # lower cs"
  by (simp_all add: lower_def)

lemmas sample_defs = sample_db_def print_mb1_def print_rna_def example_card_def

theorem get_cards_exact_witness:
  "get_cards sample_db [(''name'', Some ''blood crypt''), (''set'', Some ''RNA''), (''lang'', None)]
     = Inr [print_rna] \<and>
   get_cards sample_db [(''name'', Some ''Opt'')] = Inr [] \<and>
   get_card sample_db ''Blood Crypt'' None None = Inr (Some print_mb1) \<and>
   get_card sample_db ''Opt'' None None = Inr None"
proof -
  let ?kw1 = "[(''name'', Some ''blood crypt''), (''set'', Some ''RNA''), (''lang'', None)]"
  let ?kw2 = "[(''name'', Some ''Opt'')]"
  have sv: "string_valued sample_db ?kw1" "string_valued sample_db ?kw2"
    "string_valued sample_db (get_card_kwargs ''Blood Crypt'' None None)"
    "string_valued sample_db (get_card_kwargs ''Opt'' None None)"
    by (simp_all add: string_valued_def get_card_kwargs_def sample_defs)
  have f: "filter (matches_all ?kw1) sample_db = [print_rna]"
    "\<forall>c \<in> set sample_db. \<not> matches_all ?kw2 c"
    "filter (matches_all (get_card_kwargs ''Blood Crypt'' None None)) sample_db = sample_db"
    "filter (matches_all (get_card_kwargs ''Opt'' None None)) sample_db = []"
    by (simp_all add: matches_all_def matches_filter_def get_card_kwargs_def sample_defs
        lower_char_def)
  show ?thesis
    using get_cards_exact[of sample_db ?kw1 "''Blood Crypt''" None None]
      get_cards_exact[of sample_db ?kw2 "''Opt''" None None] sv f
    by (simp add: sample_db_def)
qed

text \<open>
  The claim as stated fails for a filter on a field that is not a string: every Scryfall
  record holds the boolean field \<open>digital\<close>, and filtering on it raises \<open>AttributeError\<close>
  instead of returning the (empty) list of matching records.
\<close>

theorem get_cards_boolean_field:
  "get_cards sample_db [(''digital'', Some ''false'')] = Inl AttributeError"
  by (simp add: sample_defs lower_char_def)

section \<open>The recommender\<close>

lemma stable_argsort_ok: "argsort_ok stable_argsort"
  by (simp add: argsort_ok_def stable_argsort_def)

lemma map_res_Inr:
  "map_res f xs = Inr ys \<Longrightarrow> length ys = length xs \<and> (\<forall>i < length xs. f (xs ! i) = Inr (ys ! i))"
proof (induction xs arbitrary: ys)
  case Nil
  then show ?case by simp
next
  case (Cons x xs)
  from Cons.prems obtain y ys' where y: "f x = Inr y" and ys': "map_res f xs = Inr ys'"
    and ys: "ys = y # ys'"
    by (auto simp: res_bind_Inr_iff)
  from Cons.IH[OF ys'] y ys show ?case
    by (auto simp: nth_Cons')
qed

lemma map_res_total:
  "(\<forall>x \<in> set xs. \<exists>y. f x = Inr y) \<Longrightarrow> \<exists>ys. map_res f xs = Inr ys"
  by (induction xs) auto

lemma index_of_Some:
  "x \<in> set xs \<Longrightarrow> \<exists>i. index_of x xs = Some i \<and> i < length xs \<and> xs ! i = x"
  by (induction xs) auto

lemma py_index_mem:
  "x \<in> set xs \<Longrightarrow> \<exists>i. py_index xs x = Inr i \<and> i < length xs \<and> xs ! i = x"
  using index_of_Some[of x xs] by (auto simp: py_index_def)

lemma np_argmax_nonempty:
  assumes "xs \<noteq> []"
  shows "\<exists>i. np_argmax xs = Inr i \<and> i < length xs \<and> xs ! i = Max (set xs)"
proof -
  have "Max (set xs) \<in> set xs"
    using assms by (intro Max_in) simp_all
  from py_index_mem[OF this] show ?thesis
    using assms by (simp add: np_argmax_def)
qed

lemma max_score_scores:
  assumes "map_res score alts = Inr scores" and "alts \<noteq> []"
  shows "max_score alts (Max (set scores))"
proof -
  from map_res_Inr[OF assms(1)] have len: "length scores = length alts"
    and nth: "\<forall>i < length alts. score (alts ! i) = Inr (scores ! i)"
    by simp_all
  from len assms(2) have ne: "scores \<noteq> []" by auto
  then have "Max (set scores) \<in> set scores"
    by (intro Max_in) simp_all
  then obtain i where i: "i < length scores" "scores ! i = Max (set scores)"
    by (auto simp: in_set_conv_nth)
  with len nth have "alts ! i \<in> set alts" "score (alts ! i) = Inr (Max (set scores))"
    by auto
  then have 1: "\<exists>a \<in> set alts. score a = Inr (Max (set scores))"
    by blast
  have 2: "s \<le> Max (set scores)" if "a \<in> set alts" "score a = Inr s" for a s
  proof -
    from that(1) obtain j where j: "j < length alts" "alts ! j = a"
      by (auto simp: in_set_conv_nth)
    with nth that(2) have "scores ! j = s" by auto
    with j len have "s \<in> set scores" by (auto simp: in_set_conv_nth)
    then show ?thesis by simp
  qed
  from 1 2 show ?thesis
    by (auto simp: max_score_def)
qed

text \<open>
  Claim C2. When the current print resolves, appears in the alternatives and every
  alternative has a score, \<open>recommend_print\<close> in mode \<open>best\<close> returns \<open>None\<close> if the
  current print's score equals the maximum score among the alternatives, and otherwise
  returns an alternative whose score is that maximum.
\<close>

theorem recommend_best_keeps_optimal:
  assumes cur: "get_card db card_name (Some set_id) (Some collector_number) = Inr (Some cur)"
    and alts: "get_cards db [(''name'', Some card_name), (''oracle_id'', oracle_id)] = Inr alts"
    and mem: "cur \<in> set alts"
    and sc: "\<forall>a \<in> set alts. \<exists>s. score a = Inr s"
  shows "\<exists>m s. max_score alts m \<and> score cur = Inr s \<and>
      (s = m \<longrightarrow>
         recommend_print argsort db card_name (Some set_id) (Some collector_number) oracle_id
           ''best'' = Inr NoRecommendation) \<and>
      (s \<noteq> m \<longrightarrow>
         (\<exists>a. recommend_print argsort db card_name (Some set_id) (Some collector_number)
                oracle_id ''best'' = Inr (OneCard a) \<and> a \<in> set alts \<and> score a = Inr m))"
proof -
  from map_res_total[OF sc] obtain scores where scores: "map_res score alts = Inr scores"
    by blast
  from map_res_Inr[OF scores] have len: "length scores = length alts"
    and nth: "\<forall>i < length alts. score (alts ! i) = Inr (scores ! i)"
    by simp_all
  from mem have ne: "alts \<noteq> []" by auto
  with len have ne': "scores \<noteq> []" by auto
  let ?m = "Max (set scores)"
  have m: "max_score alts ?m"
    using scores ne by (rule max_score_scores)
  from py_index_mem[OF mem] obtain i where i: "py_index alts cur = Inr i" "i < length alts"
    "alts ! i = cur"
    by blast
  with nth have s: "score cur = Inr (scores ! i)" by auto
  from np_argmax_nonempty[OF ne'] obtain j where j: "np_argmax scores = Inr j"
    "j < length scores" "scores ! j = ?m"
    by blast
  with len nth have a: "alts ! j \<in> set alts" "score (alts ! j) = Inr ?m"
    by auto
  have r: "recommend_print argsort db card_name (Some set_id) (Some collector_number) oracle_id
      ''best'' = (if scores ! i = ?m then Inr NoRecommendation else Inr (OneCard (alts ! j)))"
    using cur alts scores i(1) j(1) ne'
    by (simp add: recommend_print_def np_max_def)
  show ?thesis
    using m s a r by (intro exI[of _ ?m] exI[of _ "scores ! i"]) auto
qed

lemma sorted_wrt_remove1: "sorted_wrt P xs \<Longrightarrow> sorted_wrt P (remove1 x xs)"
proof (induction xs)
  case Nil
  then show ?case by simp
next
  case (Cons y ys)
  have "set (remove1 x ys) \<subseteq> set ys" by (rule set_remove1_subset)
  with Cons show ?case by auto
qed

lemma np_take_argsort:
  assumes ok: "argsort_ok argsort" and scores: "map_res score alts = Inr scores"
  shows "\<exists>asc. np_take alts (argsort scores) = Inr asc \<and> mset asc = mset alts \<and>
           sorted_wrt scores_desc (rev asc)"
proof -
  let ?idx = "argsort scores"
  from map_res_Inr[OF scores] have len: "length scores = length alts"
    and nth: "\<forall>i < length alts. score (alts ! i) = Inr (scores ! i)"
    by simp_all
  from ok have perm: "mset ?idx = mset [0..<length alts]"
    and srt: "sorted (map (\<lambda>i. scores ! i) ?idx)"
    by (simp_all add: argsort_ok_def len[symmetric])
  from perm have "set ?idx = set [0..<length alts]"
    by (rule mset_eq_setD)
  then have rng: "\<forall>i \<in> set ?idx. i < length alts"
    by simp
  let ?asc = "map (\<lambda>i. alts ! i) ?idx"
  from rng have take: "np_take alts ?idx = Inr ?asc"
    by (simp add: np_take_def)
  have "mset ?asc = image_mset (\<lambda>i. alts ! i) (mset ?idx)"
    by simp
  also have "\<dots> = mset (map (\<lambda>i. alts ! i) [0..<length alts])"
    by (simp add: perm)
  also have "\<dots> = mset alts"
    by (simp add: map_nth)
  finally have ms: "mset ?asc = mset alts" .
  from srt have "sorted_wrt (\<lambda>i j. scores ! i \<le> scores ! j) ?idx"
    by (simp add: sorted_wrt_map)
  then have "sorted_wrt (\<lambda>i j. scores_desc (alts ! j) (alts ! i)) ?idx"
  proof (rule sorted_wrt_mono_rel[rotated])
    fix i j
    assume "i \<in> set ?idx" "j \<in> set ?idx" "scores ! i \<le> scores ! j"
    with rng nth show "scores_desc (alts ! j) (alts ! i)"
      by (auto simp: scores_desc_def)
  qed
  then have "sorted_wrt scores_desc (rev ?asc)"
    by (simp add: sorted_wrt_rev sorted_wrt_map)
  with take ms show ?thesis by blast
qed

text \<open>
  Claim C3. In mode \<open>all\<close>, when a current print is known and every alternative has a
  score, the returned list starts with the current print, whatever its score; the rest is
  the alternatives without (one occurrence of) the current print, in descending score
  order.
\<close>

theorem recommend_all_current_first:
  assumes ok: "argsort_ok argsort"
    and cur: "get_card db card_name (Some set_id) (Some collector_number) = Inr (Some cur)"
    and alts: "get_cards db [(''name'', Some card_name), (''oracle_id'', oracle_id)] = Inr alts"
    and sc: "\<forall>a \<in> set alts. \<exists>s. score a = Inr s"
  shows "\<exists>rest.
      recommend_print argsort db card_name (Some set_id) (Some collector_number) oracle_id
        ''all'' = Inr (Cards (cur # rest)) \<and>
      mset rest = mset alts - {#cur#} \<and> sorted_wrt scores_desc rest"
proof -
  from map_res_total[OF sc] obtain scores where scores: "map_res score alts = Inr scores"
    by blast
  from np_take_argsort[OF ok scores] obtain asc where
    asc: "np_take alts (argsort scores) = Inr asc" "mset asc = mset alts"
      "sorted_wrt scores_desc (rev asc)"
    by blast
  let ?rest = "remove1 cur (rev asc)"
  have r: "recommend_print argsort db card_name (Some set_id) (Some collector_number) oracle_id
      ''all'' = Inr (Cards (cur # ?rest))"
    using cur alts scores asc(1)
    by (simp add: recommend_print_def remove1_idem Let_def)
  have "mset ?rest = mset alts - {#cur#}"
    using asc(2) by simp
  moreover have "sorted_wrt scores_desc ?rest"
    using asc(3) by (rule sorted_wrt_remove1)
  ultimately show ?thesis
    using r by blast
qed

lemma score_print_mb1: "score print_mb1 = Inr 126"
  by (simp add: score_def getitem_def sample_defs)

lemma score_print_rna: "score print_rna = Inr 127"
  by (simp add: score_def getitem_def sample_defs)

lemma prints_differ: "print_mb1 \<noteq> print_rna"
proof
  assume "print_mb1 = print_rna"
  then have "print_mb1 ''set'' = print_rna ''set''" by simp
  then show False by (simp add: sample_defs)
qed

lemma sample_alternatives:
  "get_cards sample_db [(''name'', Some ''Blood Crypt''), (''oracle_id'', None)] = Inr sample_db"
  by (simp add: sample_defs lower_char_def)

lemma sample_current_mb1:
  "get_card sample_db ''Blood Crypt'' (Some ''MB1'') (Some ''1596'') = Inr (Some print_mb1)"
  by (simp add: get_card_def sample_defs lower_char_def)

lemma sample_current_rna:
  "get_card sample_db ''Blood Crypt'' (Some ''RNA'') (Some ''245'') = Inr (Some print_rna)"
  by (simp add: get_card_def sample_defs lower_char_def)

lemma sample_scores: "\<forall>a \<in> set sample_db. \<exists>s. score a = Inr s"
  by (simp add: sample_db_def score_print_mb1 score_print_rna)

lemma max_score_sample: "max_score sample_db m \<Longrightarrow> m = 127"
  by (auto simp: max_score_def sample_db_def score_print_mb1 score_print_rna)

theorem recommend_best_keeps_optimal_witness:
  "recommend_print stable_argsort sample_db ''Blood Crypt'' (Some ''MB1'') (Some ''1596'') None
     ''best'' = Inr (OneCard print_rna) \<and>
   recommend_print stable_argsort sample_db ''Blood Crypt'' (Some ''RNA'') (Some ''245'') None
     ''best'' = Inr NoRecommendation"
proof -
  have mem: "print_mb1 \<in> set sample_db" "print_rna \<in> set sample_db"
    by (simp_all add: sample_db_def)
  from recommend_best_keeps_optimal[OF sample_current_mb1 sample_alternatives mem(1)
      sample_scores, of stable_argsort]
  obtain a where "recommend_print stable_argsort sample_db ''Blood Crypt'' (Some ''MB1'')
      (Some ''1596'') None ''best'' = Inr (OneCard a)" "a \<in> set sample_db" "score a = Inr 127"
    using max_score_sample score_print_mb1 by fastforce
  moreover from this have "a = print_rna"
    by (auto simp: sample_db_def score_print_mb1)
  moreover from recommend_best_keeps_optimal[OF sample_current_rna sample_alternatives mem(2)
      sample_scores, of stable_argsort]
  have "recommend_print stable_argsort sample_db ''Blood Crypt'' (Some ''RNA'') (Some ''245'')
      None ''best'' = Inr NoRecommendation"
    using max_score_sample score_print_rna by fastforce
  ultimately show ?thesis by simp
qed

theorem recommend_all_current_first_witness:
  "recommend_print stable_argsort sample_db ''Blood Crypt'' (Some ''MB1'') (Some ''1596'') None
     ''all'' = Inr (Cards [print_mb1, print_rna])"
proof -
  from recommend_all_current_first[OF stable_argsort_ok sample_current_mb1 sample_alternatives
      sample_scores]
  obtain rest where r: "recommend_print stable_argsort sample_db ''Blood Crypt'' (Some ''MB1'')
      (Some ''1596'') None ''all'' = Inr (Cards (print_mb1 # rest))"
    and ms: "mset rest = mset sample_db - {#print_mb1#}"
    by blast
  from ms have "mset rest = {#print_rna#}"
    by (simp add: sample_db_def)
  then have "rest = [print_rna]"
    by (metis mset_single_iff_right)
  with r show ?thesis by simp
qed

text \<open>
  Claim C4. With no alternative, mode \<open>all\<close> returns the current print alone, or the empty
  list when there is none; mode \<open>best\<close> does not return \<open>None\<close>: \<open>np.argmax\<close> of the
  empty score list (or \<open>list.index\<close> in the empty list, when a current print is known)
  raises \<open>ValueError\<close>.
\<close>

theorem recommend_no_alternatives:
  assumes "get_cards db [(''name'', Some card_name), (''oracle_id'', oracle_id)] = Inr []"
    and "(if set_id \<noteq> None \<and> collector_number \<noteq> None
          then get_card db card_name set_id collector_number else Inr None) = Inr current"
    and "argsort [] = []"
  shows "recommend_print argsort db card_name set_id collector_number oracle_id ''best''
           = Inl ValueError \<and>
         recommend_print argsort db card_name set_id collector_number oracle_id ''all''
           = Inr (Cards (case current of None \<Rightarrow> [] | Some cur \<Rightarrow> [cur]))"
  using assms
  by (cases current)
     (simp_all add: recommend_print_def np_argmax_def np_take_def py_index_def)

theorem recommend_no_alternatives_witness:
  "recommend_print stable_argsort sample_db ''Opt'' None None None ''best'' = Inl ValueError \<and>
   recommend_print stable_argsort sample_db ''Opt'' None None None ''all'' = Inr (Cards []) \<and>
   recommend_print stable_argsort sample_db ''Blood Crypt'' (Some ''MB1'') (Some ''1596'')
     (Some ''0'') ''best'' = Inl ValueError \<and>
   recommend_print stable_argsort sample_db ''Blood Crypt'' (Some ''MB1'') (Some ''1596'')
     (Some ''0'') ''all'' = Inr (Cards [print_mb1])"
proof -
  have 1: "get_cards sample_db [(''name'', Some ''Opt''), (''oracle_id'', None)] = Inr []"
    and 2: "get_cards sample_db [(''name'', Some ''Blood Crypt''), (''oracle_id'', Some ''0'')]
      = Inr []"
    by (simp_all add: sample_defs lower_char_def)
  have 3: "stable_argsort [] = []"
    by (simp add: stable_argsort_def)
  show ?thesis
    using
      recommend_no_alternatives[where argsort = stable_argsort and db = sample_db
        and card_name = "''Opt''" and oracle_id = None and set_id = None
        and collector_number = None and current = None]
      recommend_no_alternatives[where argsort = stable_argsort and db = sample_db
        and card_name = "''Blood Crypt''" and oracle_id = "Some ''0''"
        and set_id = "Some ''MB1''" and collector_number = "Some ''1596''"
        and current = "Some print_mb1"]
      1 2 3 sample_current_mb1
    by simp
qed

section \<open>The parser\<close>

lemma run_frame:
  "(s', g') \<in> set (run r s g) \<Longrightarrow> n \<notin> groups_of r \<Longrightarrow> g' n = g n"
proof (induction r arbitrary: s g s' g')
  case (Seq r1 r2)
  from Seq.prems(1) obtain s1 g1 where "(s1, g1) \<in> set (run r1 s g)"
    "(s', g') \<in> set (run r2 s1 g1)"
    by auto
  with Seq.IH Seq.prems(2) show ?case
    by (metis UnCI groups_of.simps(1))
qed (auto split: list.splits if_splits)

lemma run_Seq_iff:
  "(s', g') \<in> set (run (Seq r1 r2) s g) \<longleftrightarrow>
     (\<exists>s1 g1. (s1, g1) \<in> set (run r1 s g) \<and> (s', g') \<in> set (run r2 s1 g1))"
  by auto

lemma take_takeWhile_all:
  "k \<le> length (takeWhile P s) \<Longrightarrow> list_all P (take k s)"
proof -
  assume k: "k \<le> length (takeWhile P s)"
  have "take k (takeWhile P s @ dropWhile P s) = take k (takeWhile P s)"
    using k by (simp del: takeWhile_dropWhile_id)
  then have "take k s = take k (takeWhile P s)"
    by simp
  then have "set (take k s) \<subseteq> set (takeWhile P s)"
    by (metis set_take_subset)
  then show ?thesis
    by (auto simp: list_all_iff dest: set_takeWhileD)
qed

lemma run_Group_PlusG:
  assumes "(s', g') \<in> set (run (Group n (PlusG P)) s g)"
  shows "\<exists>w. g' = g(n \<mapsto> w) \<and> w \<noteq> [] \<and> list_all P w \<and> s = w @ s'"
proof -
  from assms obtain k where k: "1 \<le> k" "k \<le> length (takeWhile P s)" "s' = drop k s"
    "g' = g(n \<mapsto> take (length s - length (drop k s)) s)"
    by auto
  have "length (takeWhile P s) \<le> length s" by (rule length_takeWhile_le)
  with k have kl: "k \<le> length s" by simp
  then have "take (length s - length (drop k s)) s = take k s" by simp
  moreover have "take k s \<noteq> []" using k(1) kl by auto
  moreover have "list_all P (take k s)" using k(2) by (rule take_takeWhile_all)
  ultimately show ?thesis using k(3,4) by auto
qed

lemma run_Group_PlusL:
  assumes "(s', g') \<in> set (run (Group n (PlusL P)) s g)"
  shows "\<exists>w. g' = g(n \<mapsto> w) \<and> w \<noteq> [] \<and> list_all P w \<and> s = w @ s'"
proof -
  from assms obtain k where k: "1 \<le> k" "k \<le> length (takeWhile P s)" "s' = drop k s"
    "g' = g(n \<mapsto> take (length s - length (drop k s)) s)"
    by auto
  have "length (takeWhile P s) \<le> length s" by (rule length_takeWhile_le)
  with k have kl: "k \<le> length s" by simp
  then have "take (length s - length (drop k s)) s = take k s" by simp
  moreover have "take k s \<noteq> []" using k(1) kl by auto
  moreover have "list_all P (take k s)" using k(2) by (rule take_takeWhile_all)
  ultimately show ?thesis using k(3,4) by auto
qed

lemma decklist_pattern_groups:
  assumes "(s', m) \<in> set (run decklist_pattern s g)"
  shows "\<exists>g1 g2. m 1 = Some g1 \<and> g1 \<noteq> [] \<and> list_all is_digit g1 \<and>
                 m 2 = Some g2 \<and> g2 \<noteq> [] \<and> list_all any_char g2"
proof -
  let ?tail = "Seq (Opt
           (Seq (PlusG is_space)
           (Seq (Sym (\<lambda>c. c = CHR ''(''))
           (Seq (Group 3 (StarG non_space))
           (Seq (Sym (\<lambda>c. c = CHR '')''))
           (Seq (PlusG is_space)
                (Group 4 (PlusG non_space))))))))
    (Seq (StarG is_space) Eos)"
  from assms obtain s1 m1 s2 m2 s3 m3 where
    1: "(s1, m1) \<in> set (run (Group 1 (PlusG is_digit)) s g)" and
    2: "(s2, m2) \<in> set (run (PlusG is_space) s1 m1)" and
    3: "(s3, m3) \<in> set (run (Group 2 (PlusL any_char)) s2 m2)" and
    4: "(s', m) \<in> set (run ?tail s3 m3)"
    unfolding decklist_pattern_def run_Seq_iff by blast
  from run_Group_PlusG[OF 1] obtain g1 where g1: "m1 = g(1 \<mapsto> g1)" "g1 \<noteq> []"
    "list_all is_digit g1" by blast
  from run_frame[OF 2] have m2: "m2 = m1" by auto
  from run_Group_PlusL[OF 3] obtain g2 where g2: "m3 = m2(2 \<mapsto> g2)" "g2 \<noteq> []"
    "list_all any_char g2" by blast
  have "m 1 = m3 1" "m 2 = m3 2"
    using run_frame[OF 4] by simp_all
  with g1 g2 m2 show ?thesis by simp
qed

lemma re_search_Some:
  "re_search r s = Some m \<Longrightarrow> \<exists>s0 s'. (s', m) \<in> set (run r s0 Map.empty)"
proof (induction r s rule: re_search.induct)
  case (1 r s)
  show ?case
  proof (cases "run r s Map.empty")
    case Nil
    with "1.prems" obtain c cs where s: "s = c # cs" and "re_search r cs = Some m"
      by (cases s) simp_all
    with "1.IH"[OF Nil s] show ?thesis by blast
  next
    case (Cons p ps)
    with "1.prems" have "p = (fst p, m)" by (cases p) simp
    with Cons have "(fst p, m) \<in> set (run r s Map.empty)" by simp
    then show ?thesis by blast
  qed
qed

lemma re_search_groups:
  assumes "re_search decklist_pattern line = Some m"
  shows "\<exists>g1 g2. m 1 = Some g1 \<and> g1 \<noteq> [] \<and> list_all is_digit g1 \<and>
                 m 2 = Some g2 \<and> g2 \<noteq> [] \<and> list_all any_char g2"
  using re_search_Some[OF assms] decklist_pattern_groups by blast

lemma digits_value_nonneg:
  "0 \<le> a \<Longrightarrow> list_all is_digit s \<Longrightarrow> 0 \<le> foldl (\<lambda>n c. 10 * n + digit_value c) a s"
proof (induction s arbitrary: a)
  case Nil
  then show ?case by simp
next
  case (Cons c s)
  from Cons.prems(2) have "is_digit c" by simp
  then have "0 \<le> digit_value c"
    by (auto simp: is_digit_def digit_value_def)
  with Cons.prems(1) have "0 \<le> 10 * a + digit_value c" by simp
  with Cons.IH[of "10 * a + digit_value c"] Cons.prems(2) show ?case by simp
qed

lemma py_int_digits:
  "g1 \<noteq> [] \<Longrightarrow> list_all is_digit g1 \<Longrightarrow> length g1 \<le> int_max_str_digits \<Longrightarrow>
     \<exists>n. py_int g1 = Inr n \<and> 0 \<le> n"
  by (simp add: py_int_def digits_value_nonneg)

lemma py_int_too_long: "int_max_str_digits < length g1 \<Longrightarrow> py_int g1 = Inl ValueError"
  by (simp add: py_int_def)

lemma py_int_nonneg: "py_int s = Inr n \<Longrightarrow> 0 \<le> n"
  by (auto simp: py_int_def digits_value_nonneg split: if_splits)

lemma parse_line_too_long:
  assumes "count_too_long line"
  shows "parse_line vcn vp (d, ok) line = Inl ValueError"
proof -
  from assms obtain m g1 where m: "re_search decklist_pattern line = Some m" "m 1 = Some g1"
    "int_max_str_digits < length g1"
    by (auto simp: count_too_long_def split: option.splits)
  from py_int_too_long[OF m(3)] m(1,2) show ?thesis
    by (simp add: parse_line_def)
qed

lemma parse_line_eq:
  assumes "\<not> count_too_long line"
  shows "parse_line vcn vp (d, ok) line =
     Inr (d\<lparr>entries := entries d @ [line_entry vcn vp line]\<rparr>, ok \<and> \<not> name_fails vcn line)"
proof (cases "re_search decklist_pattern line")
  case None
  then show ?thesis
    by (simp add: parse_line_def line_entry_def name_fails_def append_comment_def)
next
  case (Some m)
  from re_search_groups[OF Some] obtain g1 g2 where
    g: "m 1 = Some g1" "g1 \<noteq> []" "list_all is_digit g1" "m 2 = Some g2"
    by blast
  from assms Some g(1) have "length g1 \<le> int_max_str_digits"
    by (simp add: count_too_long_def)
  from py_int_digits[OF g(2,3) this] obtain n where n: "py_int g1 = Inr n" by blast
  obtain r w where v: "vcn g2 = (r, w)" by (cases "vcn g2")
  show ?thesis
  proof (cases r)
    case None
    with Some g n v show ?thesis
      by (simp add: parse_line_def line_entry_def name_fails_def append_comment_def)
  next
    case (Some name')
    obtain c w' where p: "vp name' (m 3) (m 4) = (c, w')" by (cases "vp name' (m 3) (m 4)")
    from \<open>re_search decklist_pattern line = Some m\<close> Some g n v p show ?thesis
      by (simp add: parse_line_def line_entry_def name_fails_def append_card_def)
  qed
qed

lemma parse_lines_eq:
  "parse_lines vcn vp (d, ok) stream =
     (if list_ex count_too_long stream then Inl ValueError
      else Inr (d\<lparr>entries := entries d @ map (line_entry vcn vp) stream\<rparr>,
                ok \<and> list_all (\<lambda>line. \<not> name_fails vcn line) stream))"
proof (induction stream arbitrary: d ok)
  case Nil
  then show ?case by simp
next
  case (Cons line stream)
  show ?case
  proof (cases "count_too_long line")
    case True
    then show ?thesis
      by (simp add: parse_line_too_long)
  next
    case False
    then show ?thesis
      by (simp add: parse_line_eq Cons.IH conj_assoc)
  qed
qed

lemma parse_decklist_stream_eq:
  "parse_decklist_stream vcn vp stream =
     (if list_ex count_too_long stream then Inl ValueError
      else Inr (\<lparr>entries = map (line_entry vcn vp) stream\<rparr>,
                list_all (\<lambda>line. \<not> name_fails vcn line) stream))"
  by (simp add: parse_decklist_stream_def parse_lines_eq)

lemma line_entry_no_match:
  "re_search decklist_pattern line = None \<Longrightarrow> line_entry vcn vp line = Comment (strip line)"
  by (simp add: line_entry_def)

lemma line_entry_name_fails:
  "name_fails vcn line \<Longrightarrow> line_entry vcn vp line = Comment (strip line)"
  by (auto simp: line_entry_def name_fails_def split: option.splits sum.splits)

lemma line_entry_count:
  assumes "line_entry vcn vp line = Card n c"
  shows "0 \<le> n"
proof -
  from assms obtain g1 where "py_int g1 = Inr n"
    by (auto simp: line_entry_def split: option.splits sum.splits)
  then show ?thesis by (rule py_int_nonneg)
qed

lemmas cls_defs = is_digit_def is_space_def non_space_def any_char_def newline_def

text \<open>
  Claim C6, amended. For every stream in which no line that matches the pattern has a count
  of more than 4300 digits, the parser returns a pair (decklist, success). Success is false
  exactly when some line matches the pattern and its name fails sanitization. Every line
  contributes one entry, the same entry as when it is parsed alone, so parsing continues
  after a failure; a line that does not match the pattern, and a line whose name fails
  sanitization, become a Comment entry with the stripped text of the line.
\<close>

theorem parse_success_flag:
  assumes "\<not> list_ex count_too_long stream"
  shows "\<exists>d ok. parse_decklist_stream vcn vp stream = Inr (d, ok) \<and>
     (\<not> ok \<longleftrightarrow> (\<exists>line \<in> set stream. name_fails vcn line)) \<and>
     length (entries d) = length stream \<and>
     (\<forall>i < length stream.
        parse_decklist_stream vcn vp [stream ! i] =
          Inr (\<lparr>entries = [entries d ! i]\<rparr>, \<not> name_fails vcn (stream ! i)) \<and>
        (re_search decklist_pattern (stream ! i) = None \<longrightarrow>
           entries d ! i = Comment (strip (stream ! i)) \<and> \<not> name_fails vcn (stream ! i)) \<and>
        (name_fails vcn (stream ! i) \<longrightarrow> entries d ! i = Comment (strip (stream ! i))))"
proof -
  let ?d = "\<lparr>entries = map (line_entry vcn vp) stream\<rparr>"
  let ?ok = "list_all (\<lambda>line. \<not> name_fails vcn line) stream"
  have "parse_decklist_stream vcn vp stream = Inr (?d, ?ok)"
    using assms by (simp add: parse_decklist_stream_eq)
  moreover have "\<not> ?ok \<longleftrightarrow> (\<exists>line \<in> set stream. name_fails vcn line)"
    by (simp add: list_all_iff)
  moreover have "length (entries ?d) = length stream"
    by simp
  moreover have "parse_decklist_stream vcn vp [stream ! i] =
      Inr (\<lparr>entries = [entries ?d ! i]\<rparr>, \<not> name_fails vcn (stream ! i))"
    if "i < length stream" for i
  proof -
    from that have "stream ! i \<in> set stream" by simp
    with assms have "\<not> count_too_long (stream ! i)"
      by (auto simp: list_ex_iff)
    with that show ?thesis
      by (simp add: parse_decklist_stream_eq)
  qed
  moreover have "entries ?d ! i = Comment (strip (stream ! i)) \<and> \<not> name_fails vcn (stream ! i)"
    if "i < length stream" "re_search decklist_pattern (stream ! i) = None" for i
    using that by (simp add: line_entry_no_match name_fails_def)
  moreover have "entries ?d ! i = Comment (strip (stream ! i))"
    if "i < length stream" "name_fails vcn (stream ! i)" for i
    using that by (simp add: line_entry_name_fails)
  ultimately show ?thesis
    by blast
qed

lemma sample_no_match: "re_search decklist_pattern (sample_stream ! 1) = None"
  by (simp add: sample_stream_def decklist_pattern_def cls_defs)

lemma sample_name_fails: "name_fails sample_validate_card_name (sample_stream ! 2)"
  by (simp add: name_fails_def sample_stream_def decklist_pattern_def cls_defs
      sample_validate_card_name_def)

lemma sample_strip:
  "strip (sample_stream ! 1) = ''// sideboard''" "strip (sample_stream ! 2) = ''1 Blood Crpt''"
  by (simp_all add: sample_stream_def strip_def cls_defs)

lemma sample_counts_short: "\<not> list_ex count_too_long sample_stream"
  by (simp add: count_too_long_def sample_stream_def decklist_pattern_def cls_defs
      int_max_str_digits_def)

theorem parse_success_flag_witness:
  "\<exists>d. parse_decklist_stream sample_validate_card_name sample_validate_print sample_stream
         = Inr (d, False) \<and>
       length (entries d) = 4 \<and>
       entries d ! 1 = Comment ''// sideboard'' \<and>
       entries d ! 2 = Comment ''1 Blood Crpt''"
proof -
  from parse_success_flag[OF sample_counts_short, of sample_validate_card_name
      sample_validate_print]
  obtain d ok where
    p: "parse_decklist_stream sample_validate_card_name sample_validate_print sample_stream
          = Inr (d, ok)" and
    ok: "\<not> ok \<longleftrightarrow> (\<exists>line \<in> set sample_stream. name_fails sample_validate_card_name line)" and
    len: "length (entries d) = length sample_stream" and
    each: "\<forall>i < length sample_stream.
        (re_search decklist_pattern (sample_stream ! i) = None \<longrightarrow>
           entries d ! i = Comment (strip (sample_stream ! i))) \<and>
        (name_fails sample_validate_card_name (sample_stream ! i) \<longrightarrow>
           entries d ! i = Comment (strip (sample_stream ! i)))"
    by blast
  have l: "length sample_stream = 4"
    by (simp add: sample_stream_def)
  have "sample_stream ! 2 \<in> set sample_stream"
    by (simp add: sample_stream_def)
  with sample_name_fails ok have "\<not> ok" by blast
  moreover from each l sample_no_match sample_strip(1)
  have "entries d ! 1 = Comment ''// sideboard''" by simp
  moreover from each l sample_name_fails sample_strip(2)
  have "entries d ! 2 = Comment ''1 Blood Crpt''" by simp
  ultimately show ?thesis
    using p len l by auto
qed

text \<open>
  Claim C7, amended. Whenever the parser returns a decklist, every Card entry in it has a
  count that is at least 0: the parser never emits a negative count, and a line that does
  not match the pattern becomes a Comment entry.
\<close>

theorem parse_counts_nonnegative:
  assumes "parse_decklist_stream vcn vp stream = Inr (d, ok)"
  shows "(\<forall>n c. Card n c \<in> set (entries d) \<longrightarrow> 0 \<le> n) \<and>
     (\<forall>i < length stream. re_search decklist_pattern (stream ! i) = None \<longrightarrow>
        (\<exists>t. entries d ! i = Comment t))"
proof -
  from assms have d: "d = \<lparr>entries = map (line_entry vcn vp) stream\<rparr>"
    by (simp add: parse_decklist_stream_eq split: if_splits)
  have "0 \<le> n" if "Card n c \<in> set (entries d)" for n c
  proof -
    from that d obtain line where "line_entry vcn vp line = Card n c" by auto
    then show ?thesis by (rule line_entry_count)
  qed
  moreover have "\<exists>t. entries d ! i = Comment t"
    if "i < length stream" "re_search decklist_pattern (stream ! i) = None" for i
    using that d by (simp add: line_entry_no_match)
  ultimately show ?thesis
    by blast
qed

lemma sample_parse:
  "parse_decklist_stream sample_validate_card_name sample_validate_print sample_stream =
     Inr (\<lparr>entries = [Card 4 print_rna, Comment ''// sideboard'', Comment ''1 Blood Crpt'',
                       Card 0 print_rna]\<rparr>, False)"
  by (simp add: parse_decklist_stream_def parse_line_def sample_stream_def
      decklist_pattern_def cls_defs sample_validate_card_name_def sample_validate_print_def
      py_int_def int_max_str_digits_def digit_value_def strip_def append_card_def
      append_comment_def)

theorem parse_counts_nonnegative_witness:
  "parse_decklist_stream sample_validate_card_name sample_validate_print sample_stream
     = Inr (\<lparr>entries = [Card 4 print_rna, Comment ''// sideboard'', Comment ''1 Blood Crpt'',
                       Card 0 print_rna]\<rparr>, False) \<and>
   (0::int) \<le> 4 \<and> (0::int) \<le> 0 \<and>
   (\<exists>t. [Card 4 print_rna, Comment ''// sideboard'', Comment ''1 Blood Crpt'',
         Card 0 print_rna] ! 1 = Comment t)"
  using parse_counts_nonnegative[OF sample_parse] sample_parse
  by simp

text \<open>
  The claim as stated fails on the line \<open>0 Forest\<close>: it matches the pattern, its name is
  accepted, and the parser emits a Card entry with count zero.
\<close>

theorem parse_zero_count:
  "parse_decklist_stream sample_validate_card_name sample_validate_print [''0 Forest'' @ [newline]]
     = Inr (\<lparr>entries = [Card 0 print_rna]\<rparr>, True)"
  by (simp add: parse_decklist_stream_def parse_line_def
      decklist_pattern_def cls_defs sample_validate_card_name_def sample_validate_print_def
      py_int_def int_max_str_digits_def digit_value_def strip_def append_card_def)

subsection \<open>What the pattern accepts\<close>

lemma accepts_Seq_iff:
  "accepts (Seq r1 r2) w post \<longleftrightarrow>
     (\<exists>w1 w2. w = w1 @ w2 \<and> accepts r1 w1 (w2 @ post) \<and> accepts r2 w2 post)"
proof
  assume "accepts (Seq r1 r2) w post"
  then obtain k where "accepts r1 (take k w) (drop k w @ post)" "accepts r2 (drop k w) post"
    by (auto simp: list_ex_iff simp del: upt_Suc)
  then show "\<exists>w1 w2. w = w1 @ w2 \<and> accepts r1 w1 (w2 @ post) \<and> accepts r2 w2 post"
    by (intro exI[of _ "take k w"] exI[of _ "drop k w"]) simp
next
  assume "\<exists>w1 w2. w = w1 @ w2 \<and> accepts r1 w1 (w2 @ post) \<and> accepts r2 w2 post"
  then obtain w1 w2 where "w = w1 @ w2" "accepts r1 w1 (w2 @ post)" "accepts r2 w2 post"
    by blast
  then show "accepts (Seq r1 r2) w post"
    by (auto simp: list_ex_iff simp del: upt_Suc intro!: bexI[of _ "length w1"])
qed

lemma prefix_all_takeWhile:
  "list_all P w \<Longrightarrow> length w \<le> length (takeWhile P (w @ s'))"
  by (induction w) simp_all

lemma drop_class_iff:
  "(\<exists>k. lo \<le> k \<and> k \<le> length (takeWhile P s) \<and> s' = drop k s) \<longleftrightarrow>
   (\<exists>w. s = w @ s' \<and> lo \<le> length w \<and> list_all P w)"
proof
  assume "\<exists>k. lo \<le> k \<and> k \<le> length (takeWhile P s) \<and> s' = drop k s"
  then obtain k where k: "lo \<le> k" "k \<le> length (takeWhile P s)" "s' = drop k s"
    by blast
  have "length (takeWhile P s) \<le> length s" by (rule length_takeWhile_le)
  with k have "length (take k s) = k" by simp
  moreover have "list_all P (take k s)" using k(2) by (rule take_takeWhile_all)
  ultimately show "\<exists>w. s = w @ s' \<and> lo \<le> length w \<and> list_all P w"
    using k by (intro exI[of _ "take k s"]) simp
next
  assume "\<exists>w. s = w @ s' \<and> lo \<le> length w \<and> list_all P w"
  then obtain w where w: "s = w @ s'" "lo \<le> length w" "list_all P w"
    by blast
  from prefix_all_takeWhile[OF w(3), of s'] w
  show "\<exists>k. lo \<le> k \<and> k \<le> length (takeWhile P s) \<and> s' = drop k s"
    by (intro exI[of _ "length w"]) simp
qed

lemma in_run_StarG:
  "(s', g') \<in> set (run (StarG P) s g) \<longleftrightarrow>
     g' = g \<and> (\<exists>k. 0 \<le> k \<and> k \<le> length (takeWhile P s) \<and> s' = drop k s)"
  by (auto simp del: upt_Suc simp: less_Suc_eq_le)

lemma in_run_PlusG:
  "(s', g') \<in> set (run (PlusG P) s g) \<longleftrightarrow>
     g' = g \<and> (\<exists>k. 1 \<le> k \<and> k \<le> length (takeWhile P s) \<and> s' = drop k s)"
  by (auto simp del: upt_Suc simp: less_Suc_eq_le)

lemma in_run_PlusL:
  "(s', g') \<in> set (run (PlusL P) s g) \<longleftrightarrow>
     g' = g \<and> (\<exists>k. 1 \<le> k \<and> k \<le> length (takeWhile P s) \<and> s' = drop k s)"
  by (auto simp del: upt_Suc simp: less_Suc_eq_le)

lemma run_accepts:
  "(\<exists>g'. (s', g') \<in> set (run r s g)) \<longleftrightarrow> (\<exists>w. s = w @ s' \<and> accepts r w s')"
proof (induction r arbitrary: s s' g)
  case (Sym P)
  show ?case
  proof (cases s)
    case Nil
    then show ?thesis by auto
  next
    case (Cons c cs)
    have "(\<exists>w. c # cs = w @ s' \<and> length w = 1 \<and> list_all P w) \<longleftrightarrow> (P c \<and> s' = cs)"
      by (auto simp: length_Suc_conv)
    with Cons show ?thesis by auto
  qed
next
  case (StarG P)
  have "(\<exists>g'. (s', g') \<in> set (run (StarG P) s g)) \<longleftrightarrow>
      (\<exists>k. 0 \<le> k \<and> k \<le> length (takeWhile P s) \<and> s' = drop k s)"
    unfolding in_run_StarG by simp
  then show ?case
    unfolding drop_class_iff by auto
next
  case (PlusG P)
  have "(\<exists>g'. (s', g') \<in> set (run (PlusG P) s g)) \<longleftrightarrow>
      (\<exists>k. 1 \<le> k \<and> k \<le> length (takeWhile P s) \<and> s' = drop k s)"
    unfolding in_run_PlusG by simp
  then show ?case
    unfolding drop_class_iff by (auto simp: Suc_le_eq)
next
  case (PlusL P)
  have "(\<exists>g'. (s', g') \<in> set (run (PlusL P) s g)) \<longleftrightarrow>
      (\<exists>k. 1 \<le> k \<and> k \<le> length (takeWhile P s) \<and> s' = drop k s)"
    unfolding in_run_PlusL by simp
  then show ?case
    unfolding drop_class_iff by (auto simp: Suc_le_eq)
next
  case (Seq r1 r2)
  have "(\<exists>g'. (s', g') \<in> set (run (Seq r1 r2) s g)) \<longleftrightarrow>
      (\<exists>s1 g1. (s1, g1) \<in> set (run r1 s g) \<and> (\<exists>g'. (s', g') \<in> set (run r2 s1 g1)))"
    by auto
  also have "\<dots> \<longleftrightarrow> (\<exists>s1 g1. (s1, g1) \<in> set (run r1 s g) \<and>
      (\<exists>w2. s1 = w2 @ s' \<and> accepts r2 w2 s'))"
    using Seq.IH(2) by simp
  also have "\<dots> \<longleftrightarrow> (\<exists>s1. (\<exists>g1. (s1, g1) \<in> set (run r1 s g)) \<and>
      (\<exists>w2. s1 = w2 @ s' \<and> accepts r2 w2 s'))"
    by blast
  also have "\<dots> \<longleftrightarrow> (\<exists>s1. (\<exists>w1. s = w1 @ s1 \<and> accepts r1 w1 s1) \<and>
      (\<exists>w2. s1 = w2 @ s' \<and> accepts r2 w2 s'))"
    using Seq.IH(1) by simp
  also have "\<dots> \<longleftrightarrow> (\<exists>w. s = w @ s' \<and> accepts (Seq r1 r2) w s')"
    unfolding accepts_Seq_iff by (metis append.assoc)
  finally show ?case .
next
  case (Opt r)
  have "(\<exists>g'. (s', g') \<in> set (run (Opt r) s g)) \<longleftrightarrow>
      (\<exists>g'. (s', g') \<in> set (run r s g)) \<or> s' = s"
    by auto
  then show ?case
    using Opt.IH[of s' s g] by auto
next
  case (Group n r)
  have "(\<exists>g'. (s', g') \<in> set (run (Group n r) s g)) \<longleftrightarrow> (\<exists>g'. (s', g') \<in> set (run r s g))"
    by force
  then show ?case
    using Group.IH[of s' s g] by simp
next
  case Eos
  show ?case by auto
qed

lemma run_nonempty_iff:
  "run r s g \<noteq> [] \<longleftrightarrow> (\<exists>w post. s = w @ post \<and> accepts r w post)"
proof -
  have "run r s g \<noteq> [] \<longleftrightarrow> (\<exists>s' g'. (s', g') \<in> set (run r s g))"
    by (cases "run r s g") auto
  also have "\<dots> \<longleftrightarrow> (\<exists>s'. \<exists>w. s = w @ s' \<and> accepts r w s')"
    using run_accepts[of _ r s g] by blast
  finally show ?thesis by blast
qed













subsection \<open>A count beyond the conversion limit\<close>

lemma re_search_first:
  assumes "run r s Map.empty \<noteq> []"
  shows "\<exists>s' m. re_search r s = Some m \<and> (s', m) \<in> set (run r s Map.empty)"
proof -
  from assms obtain p ps where "run r s Map.empty = p # ps"
    by (cases "run r s Map.empty") auto
  then have "re_search r s = Some (snd p)" "(fst p, snd p) \<in> set (run r s Map.empty)"
    by (cases p, simp)+
  then show ?thesis by blast
qed

lemma accepts_SeqI:
  "accepts r1 w1 (w2 @ post) \<Longrightarrow> accepts r2 w2 post \<Longrightarrow> accepts (Seq r1 r2) (w1 @ w2) post"
  unfolding accepts_Seq_iff by blast

lemma takeWhile_stop:
  "list_all P w \<Longrightarrow> \<not> P x \<Longrightarrow> takeWhile P (w @ x # xs) = w"
  by (induction w) simp_all

lemma group1_is_digit_run:
  assumes "(s', m) \<in> set (run decklist_pattern (ds @ c # rest) g)"
    and "list_all is_digit ds" and "\<not> is_digit c"
  shows "m 1 = Some ds"
proof -
  let ?s = "ds @ c # rest"
  let ?tail = "Seq (Group 2 (PlusL any_char))
    (Seq (Opt
           (Seq (PlusG is_space)
           (Seq (Sym (\<lambda>c. c = CHR ''(''))
           (Seq (Group 3 (StarG non_space))
           (Seq (Sym (\<lambda>c. c = CHR '')''))
           (Seq (PlusG is_space)
                (Group 4 (PlusG non_space))))))))
    (Seq (StarG is_space) Eos))"
  from assms(1) obtain s1 m1 s2 m2 where
    1: "(s1, m1) \<in> set (run (Group 1 (PlusG is_digit)) ?s g)" and
    2: "(s2, m2) \<in> set (run (PlusG is_space) s1 m1)" and
    3: "(s', m) \<in> set (run ?tail s2 m2)"
    unfolding decklist_pattern_def run_Seq_iff by blast
  from run_Group_PlusG[OF 1] obtain w where w: "m1 = g(1 \<mapsto> w)" "list_all is_digit w"
    "?s = w @ s1" by blast
  from 2 have "\<exists>g'. (s2, g') \<in> set (run (PlusG is_space) s1 m1)" by blast
  then obtain w2 where w2: "s1 = w2 @ s2" "accepts (PlusG is_space) w2 s2"
    unfolding run_accepts by blast
  then obtain x xs where x: "w2 = x # xs" "is_space x"
    by (cases w2) auto
  then have nd: "\<not> is_digit x"
    by (auto simp: is_space_def is_digit_def)
  have "takeWhile is_digit ?s = ds"
    using assms(2,3) by (rule takeWhile_stop)
  moreover have "takeWhile is_digit (w @ x # (xs @ s2)) = w"
    using w(2) nd by (rule takeWhile_stop)
  ultimately have "w = ds"
    using w(3) w2(1) x(1) by simp
  moreover from run_frame[OF 2] have "m2 = m1" by auto
  moreover from run_frame[OF 3] have "m 1 = m2 1" by simp
  ultimately show ?thesis using w(1) by simp
qed

lemma long_count_matches:
  assumes "ds \<noteq> []" and "list_all is_digit ds"
  shows "\<exists>m. re_search decklist_pattern (ds @ '' Forest'') = Some m \<and> m 1 = Some ds"
proof -
  let ?rest = "Seq (PlusG is_space)
    (Seq (Group 2 (PlusL any_char))
    (Seq (Opt
           (Seq (PlusG is_space)
           (Seq (Sym (\<lambda>c. c = CHR ''(''))
           (Seq (Group 3 (StarG non_space))
           (Seq (Sym (\<lambda>c. c = CHR '')''))
           (Seq (PlusG is_space)
                (Group 4 (PlusG non_space))))))))
    (Seq (StarG is_space) Eos)))"
  have e: "accepts (Seq (StarG is_space) Eos) [] []"
    using accepts_SeqI[of "StarG is_space" "[]" "[]" "[]" Eos] by simp
  have o: "accepts (Seq (Opt
           (Seq (PlusG is_space)
           (Seq (Sym (\<lambda>c. c = CHR ''(''))
           (Seq (Group 3 (StarG non_space))
           (Seq (Sym (\<lambda>c. c = CHR '')''))
           (Seq (PlusG is_space)
                (Group 4 (PlusG non_space))))))))
    (Seq (StarG is_space) Eos)) [] []"
    using accepts_SeqI[OF _ e, of _ "[]"] by simp
  have n: "accepts (Group 2 (PlusL any_char)) ''Forest'' ([] @ [])"
    by (simp add: cls_defs)
  have sp: "accepts (PlusG is_space) '' '' ((''Forest'' @ []) @ [])"
    by (simp add: cls_defs)
  have rest: "accepts ?rest ('' '' @ (''Forest'' @ [])) []"
    by (rule accepts_SeqI[OF sp accepts_SeqI[OF n o]])
  have "accepts (Group 1 (PlusG is_digit)) ds (('' '' @ (''Forest'' @ [])) @ [])"
    using assms by simp
  from accepts_SeqI[OF this rest] have "accepts decklist_pattern (ds @ '' Forest'') []"
    by (simp add: decklist_pattern_def del: accepts.simps)
  then have "run decklist_pattern (ds @ '' Forest'') Map.empty \<noteq> []"
    unfolding run_nonempty_iff by (metis append_Nil2)
  from re_search_first[OF this] obtain s' m where
    m: "re_search decklist_pattern (ds @ '' Forest'') = Some m"
    "(s', m) \<in> set (run decklist_pattern (ds @ '' Forest'') Map.empty)"
    by blast
  have "\<not> is_digit CHR '' ''"
    by (simp add: is_digit_def)
  with m(2) assms(2) have "m 1 = Some ds"
    using group1_is_digit_run[of s' m ds "CHR '' ''" "''Forest''" Map.empty] by simp
  with m(1) show ?thesis by blast
qed

lemma parse_long_count:
  assumes "int_max_str_digits < n"
  shows "parse_decklist_stream vcn vp [replicate n CHR ''0'' @ '' Forest''] = Inl ValueError"
proof -
  let ?ds = "replicate n CHR ''0''"
  from assms have "?ds \<noteq> []" by auto
  moreover have "list_all is_digit ?ds"
    by (simp add: list_all_iff is_digit_def)
  ultimately obtain m where "re_search decklist_pattern (?ds @ '' Forest'') = Some m"
    "m 1 = Some ?ds"
    using long_count_matches by blast
  with assms have "count_too_long (?ds @ '' Forest'')"
    by (simp add: count_too_long_def)
  then show ?thesis
    by (simp add: parse_decklist_stream_eq)
qed

text \<open>
  Claim C6 as stated fails on a line whose count has 4301 digits: the line matches the
  pattern, \<open>int\<close> raises \<open>ValueError\<close> on the count, and the parser returns no
  pair.
\<close>

theorem parse_count_too_long:
  "parse_decklist_stream sample_validate_card_name sample_validate_print
     [replicate 4301 CHR ''0'' @ '' Forest''] = Inl ValueError"
proof -
  have "int_max_str_digits < 4301"
    by (simp add: int_max_str_digits_def)
  then show ?thesis
    by (rule parse_long_count)
qed

section \<open>Formatting comments\<close>

lemma map_res_Inl:
  "map_res f xs = Inl e \<Longrightarrow> \<exists>x \<in> set xs. f x = Inl e"
proof (induction xs)
  case Nil
  then show ?case by simp
next
  case (Cons x xs)
  show ?case
  proof (cases "f x")
    case (Inl e')
    with Cons.prems show ?thesis by simp
  next
    case (Inr y)
    with Cons.prems have "map_res f xs = Inl e"
      by (cases "map_res f xs") simp_all
    with Cons.IH show ?thesis by auto
  qed
qed

lemma map_res_comments:
  "map_res (\<lambda>e. format_entry repr_list e format_spec) (map Comment ts) = Inr ts"
  by (induction ts) simp_all

lemma format_card_unknown:
  assumes "format_card repr_list n c format_spec = Inl (UnknownFormat s)"
  shows "s = format_spec \<and> format_spec \<noteq> ''text'' \<and> format_spec \<noteq> ''arena''"
proof -
  have key: "getitem c k \<noteq> Inl (UnknownFormat s)" for k
    by (simp add: getitem_def split: option.splits)
  have up: "py_upper v \<noteq> Inl (UnknownFormat s)" for v
    by (cases v) simp_all
  have bind: "res_bind m f = Inl (UnknownFormat s) \<Longrightarrow>
      m = Inl (UnknownFormat s) \<or> (\<exists>v. m = Inr v \<and> f v = Inl (UnknownFormat s))"
    for m :: "error + 'x" and f :: "'x \<Rightarrow> error + string"
    by (cases m) simp_all
  show ?thesis
  proof (cases "format_spec = ''text''")
    case True
    with assms key show ?thesis
      by (auto simp: format_card_def dest!: bind)
  next
    case False
    note not_text = this
    show ?thesis
    proof (cases "format_spec = ''arena''")
      case True
      with assms key up show ?thesis
        by (auto simp: format_card_def dest!: bind)
    next
      case False
      with not_text assms show ?thesis
        by (simp add: format_card_def)
    qed
  qed
qed

text \<open>
  Claim C10. For every format spec, formatting a Comment entry returns its text, and
  formatting a decklist of Comment entries returns their texts joined by the line
  separator. The unknown-format error arises only from a Card entry, and only for a format
  spec other than \<open>text\<close> and \<open>arena\<close>.
\<close>

theorem comment_format_verbatim:
  "format_entry repr_list (Comment t) format_spec = Inr t \<and>
   format_decklist linesep repr_list \<lparr>entries = map Comment ts\<rparr> format_spec
     = Inr (join linesep ts) \<and>
   (format_entry repr_list e format_spec = Inl (UnknownFormat s) \<longrightarrow>
      (\<exists>n c. e = Card n c) \<and> s = format_spec \<and> format_spec \<noteq> ''text'' \<and>
      format_spec \<noteq> ''arena'') \<and>
   (format_decklist linesep repr_list d format_spec = Inl (UnknownFormat s) \<longrightarrow>
      (\<exists>n c. Card n c \<in> set (entries d)))"
proof (intro conjI impI)
  show "format_entry repr_list (Comment t) format_spec = Inr t"
    by simp
  show "format_decklist linesep repr_list \<lparr>entries = map Comment ts\<rparr> format_spec
      = Inr (join linesep ts)"
    by (simp add: format_decklist_def map_res_comments)
next
  assume a: "format_entry repr_list e format_spec = Inl (UnknownFormat s)"
  then show "\<exists>n c. e = Card n c"
    by (cases e) simp_all
  from a obtain n c where "format_card repr_list n c format_spec = Inl (UnknownFormat s)"
    by (cases e) simp_all
  from format_card_unknown[OF this]
  show "s = format_spec" "format_spec \<noteq> ''text''" "format_spec \<noteq> ''arena''"
    by simp_all
next
  assume "format_decklist linesep repr_list d format_spec = Inl (UnknownFormat s)"
  then have "map_res (\<lambda>e. format_entry repr_list e format_spec) (entries d)
      = Inl (UnknownFormat s)"
    by (cases "map_res (\<lambda>e. format_entry repr_list e format_spec) (entries d)")
      (simp_all add: format_decklist_def)
  from map_res_Inl[OF this] obtain e where e: "e \<in> set (entries d)"
    "format_entry repr_list e format_spec = Inl (UnknownFormat s)"
    by blast
  from e(2) obtain n c where "e = Card n c"
    by (cases e) simp_all
  with e(1) show "\<exists>n c. Card n c \<in> set (entries d)"
    by blast
qed

theorem comment_format_verbatim_witness:
  "format_entry sample_repr_list (Card 4 print_rna) ''json'' = Inl (UnknownFormat ''json'') \<and>
   format_decklist ''; '' sample_repr_list
     \<lparr>entries = [Comment ''// sideboard'', Card 4 print_rna]\<rparr> ''json''
     = Inl (UnknownFormat ''json'') \<and>
   format_decklist ''; '' sample_repr_list
     \<lparr>entries = map Comment [''// sideboard'', ''// lands'']\<rparr> ''json''
     = Inr ''// sideboard; // lands'' \<and>
   (\<exists>n c. Card n c \<in> set [Comment ''// sideboard'', Card 4 print_rna])"
proof -
  let ?d = "\<lparr>entries = [Comment ''// sideboard'', Card 4 print_rna]\<rparr>"
  have 1: "format_entry sample_repr_list (Card 4 print_rna) ''json''
      = Inl (UnknownFormat ''json'')"
    by (simp add: format_card_def)
  have 2: "format_decklist ''; '' sample_repr_list ?d ''json'' = Inl (UnknownFormat ''json'')"
    by (simp add: format_decklist_def format_card_def)
  from comment_format_verbatim[of sample_repr_list "''// sideboard''" "''json''" "''; ''"
      "[''// sideboard'', ''// lands'']" "Card 4 print_rna" "''json''" ?d] 1 2
  show ?thesis by simp
qed

section \<open>Further properties\<close>

lemma index_of_first:
  "index_of x xs = Some i \<Longrightarrow> i < length xs \<and> xs ! i = x \<and> (\<forall>j < i. xs ! j \<noteq> x)"
proof (induction xs arbitrary: i)
  case Nil
  then show ?case by simp
next
  case (Cons y ys)
  show ?case
  proof (cases "y = x")
    case True
    with Cons.prems show ?thesis by simp
  next
    case False
    with Cons.prems obtain k where k: "index_of x ys = Some k" "i = Suc k"
      by auto
    from Cons.IH[OF k(1)] False k(2) show ?thesis
      by (auto simp: nth_Cons')
  qed
qed

text \<open>
  Without a current print, mode \<open>best\<close> returns the first alternative, in database order,
  whose score is the maximum: ties are broken by position.
\<close>

theorem recommend_best_first_maximum:
  assumes "set_id = None \<or> collector_number = None"
    and "get_cards db [(''name'', Some card_name), (''oracle_id'', oracle_id)] = Inr alts"
    and "alts \<noteq> []"
    and "map_res score alts = Inr scores"
  shows "\<exists>i. recommend_print argsort db card_name set_id collector_number oracle_id ''best''
              = Inr (OneCard (alts ! i)) \<and>
             i < length alts \<and> scores ! i = Max (set scores) \<and>
             (\<forall>j < i. scores ! j < Max (set scores))"
proof -
  from map_res_Inr[OF assms(4)] have len: "length scores = length alts" by simp
  with assms(3) have ne: "scores \<noteq> []" by auto
  then have "Max (set scores) \<in> set scores"
    by (intro Max_in) simp_all
  from index_of_Some[OF this] obtain i where i: "index_of (Max (set scores)) scores = Some i"
    by blast
  from index_of_first[OF i] have first: "i < length scores" "scores ! i = Max (set scores)"
    "\<forall>j < i. scores ! j \<noteq> Max (set scores)"
    by simp_all
  have below: "scores ! j < Max (set scores)" if "j < i" for j
  proof -
    from that first(1) have "scores ! j \<in> set scores" by simp
    then have "scores ! j \<le> Max (set scores)" by simp
    with first(3) that show ?thesis by force
  qed
  have "recommend_print argsort db card_name set_id collector_number oracle_id ''best''
      = Inr (OneCard (alts ! i))"
    using assms(1,2,4) ne i
    by (auto simp: recommend_print_def np_argmax_def py_index_def)
  with first len below show ?thesis by auto
qed

theorem recommend_best_first_maximum_witness:
  "recommend_print stable_argsort [print_rna, print_mb1, print_rna] ''Blood Crypt'' None None
     None ''best'' = Inr (OneCard ([print_rna, print_mb1, print_rna] ! 0))"
proof -
  let ?alts = "[print_rna, print_mb1, print_rna]"
  have 1: "get_cards ?alts [(''name'', Some ''Blood Crypt''), (''oracle_id'', None)] = Inr ?alts"
    by (simp add: sample_defs lower_char_def)
  have 2: "map_res score ?alts = Inr [127, 126, 127]"
    by (simp add: score_print_mb1 score_print_rna)
  from recommend_best_first_maximum[OF _ 1 _ 2, of None None stable_argsort]
  obtain i where i: "recommend_print stable_argsort ?alts ''Blood Crypt'' None None None ''best''
      = Inr (OneCard (?alts ! i))" "\<forall>j < i. [127, 126, 127 :: int] ! j < Max (set [127, 126, 127])"
    by auto
  have "i = 0"
  proof (rule ccontr)
    assume "i \<noteq> 0"
    then have "0 < i" by simp
    with i(2) have "[127, 126, 127 :: int] ! 0 < Max (set [127, 126, 127])" by blast
    then show False by simp
  qed
  with i(1) show ?thesis by simp
qed

text \<open>
  The two output formats of a card entry whose name, set and collector number are
  strings: \<open>text\<close> gives the count and the name, \<open>arena\<close> adds the set in upper case and
  the collector number.
\<close>

theorem format_card_text_arena:
  assumes "c ''name'' = Some (JStr name)"
    and "c ''set'' = Some (JStr set_id)"
    and "c ''collector_number'' = Some (JStr number)"
  shows "format_entry repr_list (Card n c) ''text'' = Inr (str_int n @ '' '' @ name) \<and>
         format_entry repr_list (Card n c) ''arena''
           = Inr (str_int n @ '' '' @ name @ '' ('' @ upper set_id @ '') '' @ number)"
  using assms by (simp add: format_card_def getitem_def)

theorem format_card_text_arena_witness:
  "format_entry sample_repr_list (Card 4 print_rna) ''text'' = Inr ''4 Blood Crypt'' \<and>
   format_entry sample_repr_list (Card 4 print_rna) ''arena'' = Inr ''4 Blood Crypt (RNA) 245''"
proof -
  have f: "print_rna ''name'' = Some (JStr ''Blood Crypt'')" "print_rna ''set'' = Some (JStr ''rna'')"
    "print_rna ''collector_number'' = Some (JStr ''245'')"
    by (simp_all add: sample_defs)
  have s: "str_int 4 = ''4''"
    by (simp add: str_int_def digit_char_def)
  have u: "upper ''rna'' = ''RNA''"
    by (simp add: upper_def upper_char_def)
  from format_card_text_arena[OF f, of sample_repr_list 4] s u show ?thesis
    by simp
qed

end
